theory Spec2Isabelle
  imports Complex_Main "HOL-Library.Multiset"
begin

section \<open>A genetic solver for the multi-vehicle routing problem\<close>

text \<open>
  The solver lives in one TypeScript module: a great-circle distance, the class
  \<open>VRPSolver\<close> (population, fitness, selection, mutation, the generation loop and
  the result builder) and the entry point \<open>generate\<close>.

  Conventions of the embedding.
  \<^item> A JavaScript \<open>number\<close> that holds a length or an index is a \<open>nat\<close> (an \<open>int\<close>
    where the source subtracts); one that holds a coordinate, a distance, a time or a
    fitness is a \<open>real\<close>. Arithmetic on them is exact: the rounding of IEEE doubles,
    \<open>NaN\<close> and the infinities are outside the model.
  \<^item> \<open>null\<close> and \<open>undefined\<close> are \<open>None\<close>; a \<open>TypeError\<close> raised by reading a
    property of \<open>undefined\<close> or \<open>null\<close> is \<open>Inl TypeError\<close>.
  \<^item> \<open>Math.random\<close> is a stream \<open>nat \<Rightarrow> real\<close> of the values it returns, in
    the order of the calls; every function that draws from it returns the rest.
  \<^item> The helpers \<open>range\<close>, \<open>shuffle\<close>, \<open>sort\<close>, \<open>draw\<close> and \<open>max\<close> are imported by
    the module from the library radash; they are written here after that library's
    implementation, with the suffix \<open>_radash\<close> where the name is taken in HOL.
\<close>

subsection \<open>Data\<close>

datatype error = TypeError

record Coord =
  longitude :: real
  latitude :: real

record VRPRoute =
  paths :: "Coord list"
  indices :: "nat list"
  time :: real
  driveTime :: real
  distance :: real
  googleMapUrl :: string

record VRPSolve =
  routes :: "VRPRoute list"
  totalDistance :: real
  totalTime :: "real option"

datatype PlanMode = TimeOptimized | DistanceOptimized | Balance

record PlanInput =
  warehouse :: Coord
  plan_stops :: "Coord list"
  mode :: PlanMode

text \<open>The fields of the class \<open>VRPSolver\<close>.\<close>

record VRPSolver =
  weightTime :: real
  weightDistance :: real
  driverNum :: nat
  coords :: "Coord list"
  population :: "nat list list"
  individualNum :: nat
  selectedNum :: nat
  iterNum :: nat
  stops :: "Coord list"

text \<open>The object that \<open>getFitness\<close> returns.\<close>

record Fitness =
  fitness :: real
  fit_routes :: "nat list list"
  fit_totalDistance :: real
  fit_totalTime :: "real option"

type_synonym rand = "nat \<Rightarrow> real"

subsection \<open>JavaScript primitives\<close>

text \<open>\<open>xs[i]\<close>: \<open>undefined\<close> outside the array.\<close>

definition at_index :: "'a list \<Rightarrow> int \<Rightarrow> 'a option" where
  "at_index xs i = (if 0 \<le> i \<and> i < int (length xs) then Some (xs ! nat i) else None)"

text \<open>\<open>xs.slice(start, end)\<close> and \<open>xs.slice(start)\<close>, negative arguments counting from the end.\<close>

definition slice :: "'a list \<Rightarrow> int \<Rightarrow> int \<Rightarrow> 'a list" where
  "slice xs start endN =
     (let len = int (length xs);
          k = (if start < 0 then max (len + start) 0 else min start len);
          final = (if endN < 0 then max (len + endN) 0 else min endN len)
      in take (nat (final - k)) (drop (nat k) xs))"

definition slice_from :: "'a list \<Rightarrow> int \<Rightarrow> 'a list" where
  "slice_from xs start = slice xs start (int (length xs))"

text \<open>\<open>x % y\<close> on numbers: the remainder of the division truncated towards zero.\<close>

definition js_rem :: "real \<Rightarrow> real \<Rightarrow> real" where
  "js_rem x y =
     (let q = x / y
      in x - y * real_of_int (if 0 \<le> q then floor q else ceiling q))"

text \<open>\<open>Math.atan2(y, x)\<close>.\<close>

definition atan2 :: "real \<Rightarrow> real \<Rightarrow> real" where
  "atan2 y x =
     (if 0 < x then arctan (y / x)
      else if x < 0 then (if 0 \<le> y then arctan (y / x) + pi else arctan (y / x) - pi)
      else if 0 < y then pi / 2
      else if y < 0 then - (pi / 2)
      else 0)"

text \<open>\<open>xs.join(sep)\<close> on strings.\<close>

fun join :: "string \<Rightarrow> string list \<Rightarrow> string" where
  "join sep [] = []"
| "join sep [x] = x"
| "join sep (x # y # ys) = x @ sep @ join sep (y # ys)"

text \<open>A list of results is a result: the first exception wins.\<close>

fun collect :: "(error + 'a) list \<Rightarrow> error + 'a list" where
  "collect [] = Inr []"
| "collect (x # xs) =
     (case x of
        Inl e \<Rightarrow> Inl e
      | Inr v \<Rightarrow> (case collect xs of Inl e \<Rightarrow> Inl e | Inr vs \<Rightarrow> Inr (v # vs)))"

subsection \<open>The helpers of radash\<close>

text \<open>
  \<open>range(startOrLength, end, valueOrMapper)\<close> with step 1 yields the mapper at
  \<open>start, start + 1, ..., end\<close>, where \<open>start\<close> is 0 instead of \<open>startOrLength\<close> when
  \<open>end\<close> is falsy (0). So \<open>range(1, 0)\<close> yields the single value 0.
\<close>

definition range_radash :: "int \<Rightarrow> int \<Rightarrow> (int \<Rightarrow> 'a) \<Rightarrow> 'a list" where
  "range_radash startOrLength endN mapper =
     (let start = (if endN \<noteq> 0 then startOrLength else 0);
          final = endN
      in map mapper [start..final])"

text \<open>
  \<open>shuffle\<close> tags every element with a fresh random number, sorts by the tag (the
  sort of JavaScript is stable) and drops the tags.
\<close>

definition shuffle :: "'a list \<Rightarrow> rand \<Rightarrow> 'a list \<times> rand" where
  "shuffle array r =
     (let tagged = zip (map r [0..<length array]) array
      in (map snd (sort_key fst tagged), \<lambda>i. r (i + length array)))"

text \<open>\<open>random(min, max)\<close> is \<open>Math.floor(Math.random() * (max - min + 1) + min)\<close>.\<close>

definition random_radash :: "int \<Rightarrow> int \<Rightarrow> rand \<Rightarrow> int \<times> rand" where
  "random_radash mn mx r =
     (floor (r 0 * real_of_int (mx - mn + 1) + real_of_int mn), \<lambda>i. r (Suc i))"

text \<open>\<open>draw\<close>: \<open>null\<close> on the empty array, else the element at a random index.\<close>

definition draw :: "'a list \<Rightarrow> rand \<Rightarrow> 'a option \<times> rand" where
  "draw array r =
     (let mx = length array
      in if mx = 0 then (None, r)
         else (case random_radash 0 (int mx - 1) r of
                 (index, r') \<Rightarrow> (at_index array index, r')))"

text \<open>
  \<open>sort(array, getter, desc)\<close> copies the array and sorts the copy with the comparator
  \<open>getter(b) - getter(a)\<close> (descending) or \<open>getter(a) - getter(b)\<close>. The sort is
  stable. The comparator runs only when there are two elements or more, and then on
  every element, so an exception of the getter aborts the sort.
\<close>

definition sort_radash :: "'a list \<Rightarrow> ('a \<Rightarrow> error + real) \<Rightarrow> bool \<Rightarrow> error + 'a list" where
  "sort_radash array getter desc =
     (if length array < 2 then Inr array
      else (case collect (map getter array) of
              Inl e \<Rightarrow> Inl e
            | Inr keys \<Rightarrow>
                Inr (map snd (sort_key (\<lambda>p. if desc then - fst p else fst p) (zip keys array)))))"

text \<open>\<open>max(array)\<close>: \<open>null\<close> on the empty array, else a left fold keeping the greater.\<close>

definition max_radash :: "real list \<Rightarrow> real option" where
  "max_radash array =
     (case array of
        [] \<Rightarrow> None
      | x # xs \<Rightarrow> Some (foldl (\<lambda>a b. if a > b then a else b) x xs))"

subsection \<open>Geometry\<close>

definition DRIVE_SPEED :: real where
  "DRIVE_SPEED = 50"

definition toRadians :: "real \<Rightarrow> real" where
  "toRadians degrees = degrees * pi / 180"

definition haversineDistance :: "Coord \<Rightarrow> Coord \<Rightarrow> real" where
  "haversineDistance coord1 coord2 =
     (let lon1 = longitude coord1; lat1 = latitude coord1;
          lon2 = longitude coord2; lat2 = latitude coord2;
          R = 6371;
          lat1Rad = toRadians lat1;
          lat2Rad = toRadians lat2;
          deltaLatRad = toRadians (lat2 - lat1);
          deltaLonRad = toRadians (lon2 - lon1);
          a = sin (deltaLatRad / 2) * sin (deltaLatRad / 2) +
              cos lat1Rad * cos lat2Rad *
              sin (deltaLonRad / 2) * sin (deltaLonRad / 2);
          c = 2 * atan2 (sqrt a) (sqrt (1 - a))
      in R * c)"

definition getDistanceBetweenCoords :: "Coord \<Rightarrow> Coord \<Rightarrow> real" where
  "getDistanceBetweenCoords coord1 coord2 = haversineDistance coord1 coord2"

subsection \<open>Cost model\<close>

text \<open>
  The loop of \<open>getRouteDistance\<close> adds the distance of every pair of neighbours of
  \<open>fullRoute\<close>, left to right; reading a coordinate of an index outside \<open>coords\<close>
  gives \<open>undefined\<close>, whose destructuring in \<open>haversineDistance\<close> throws.
\<close>

fun getRouteDistance_loop :: "Coord list \<Rightarrow> nat list \<Rightarrow> real \<Rightarrow> error + real" where
  "getRouteDistance_loop cs (i # j # rest) d =
     (case at_index cs (int i) of
        None \<Rightarrow> Inl TypeError
      | Some coord1 \<Rightarrow>
          (case at_index cs (int j) of
             None \<Rightarrow> Inl TypeError
           | Some coord2 \<Rightarrow>
               getRouteDistance_loop cs (j # rest) (d + getDistanceBetweenCoords coord1 coord2)))"
| "getRouteDistance_loop cs fullRoute d = Inr d"

definition getRouteDistance :: "VRPSolver \<Rightarrow> nat list \<Rightarrow> error + real" where
  "getRouteDistance s route =
     (let fullRoute = [0] @ route @ [0]
      in getRouteDistance_loop (coords s) fullRoute 0)"

definition getRouteTime :: "real \<Rightarrow> real" where
  "getRouteTime dist_km =
     (let driverTime = dist_km / DRIVE_SPEED;
          fullDay = real_of_int (floor (driverTime / 8));
          lasyTime = js_rem driverTime 8
      in fullDay * 24 + lasyTime)"

subsection \<open>Fitness\<close>

text \<open>
  One round of the first loop of \<open>getFitness\<close>, on the pair of \<open>routes\<close> and
  \<open>warehouseIdx\<close>. The loop counts \<open>i\<close> up to \<open>individualNum\<close>; beyond the end of the
  individual \<open>individual[i]\<close> is \<open>undefined\<close>, which is not \<open>0\<close>.
\<close>

definition decode_step :: "nat list \<Rightarrow> nat list list \<times> int \<Rightarrow> nat \<Rightarrow> nat list list \<times> int" where
  "decode_step individual st i =
     (case st of (rts, warehouseIdx) \<Rightarrow>
        if at_index individual (int i) = Some 0 then
          (let route = slice individual (warehouseIdx + 1) (int i)
           in (if length route > 0 then rts @ [route] else rts, int i))
        else (rts, warehouseIdx))"

text \<open>Both parts of the decoding: the loop, then the last route.\<close>

definition decode :: "VRPSolver \<Rightarrow> nat list \<Rightarrow> nat list list" where
  "decode s individual =
     (case foldl (decode_step individual) ([], - 1) [0..<individualNum s] of
        (rts, warehouseIdx) \<Rightarrow>
          if warehouseIdx \<noteq> int (individualNum s) - 1 then
            (let route = slice_from individual (warehouseIdx + 1)
             in if length route > 0 then rts @ [route] else rts)
          else rts)"

text \<open>\<open>null\<close> counts as 0 in arithmetic.\<close>

definition to_number :: "real option \<Rightarrow> real" where
  "to_number v = (case v of None \<Rightarrow> 0 | Some x \<Rightarrow> x)"

definition evaluate :: "VRPSolver \<Rightarrow> nat list list \<Rightarrow> error + Fitness" where
  "evaluate s rts =
     (case collect (map (getRouteDistance s) rts) of
        Inl e \<Rightarrow> Inl e
      | Inr distances \<Rightarrow>
          (let totalDistance = foldl (+) 0 distances;
               totalTime = max_radash (map (\<lambda>idx. getRouteTime (distances ! idx)) [0..<length rts]);
               cost = (weightTime s * to_number totalTime + weightDistance s * totalDistance) /
                      (weightTime s + weightDistance s)
           in Inr \<lparr>fitness = - cost, fit_routes = rts,
                   fit_totalDistance = totalDistance, fit_totalTime = totalTime\<rparr>))"

definition getFitness :: "VRPSolver \<Rightarrow> nat list \<Rightarrow> error + Fitness" where
  "getFitness s individual = evaluate s (decode s individual)"

text \<open>
  \<open>getFitness(undefined)\<close>, which \<open>solve\<close> would call on an empty population: the
  first read \<open>individual[0]\<close> throws, unless \<open>individualNum\<close> is 0 and nothing is read.
\<close>

definition getFitness_undefined :: "VRPSolver \<Rightarrow> error + Fitness" where
  "getFitness_undefined s = (if individualNum s = 0 then evaluate s [] else Inl TypeError)"

subsection \<open>Population and generations\<close>

fun initPopulation_loop :: "nat list \<Rightarrow> nat \<Rightarrow> nat list list \<Rightarrow> rand \<Rightarrow> nat list list \<times> rand" where
  "initPopulation_loop base 0 pop r = (pop, r)"
| "initPopulation_loop base (Suc k) pop r =
     (case shuffle base r of (ind, r') \<Rightarrow> initPopulation_loop base k (pop @ [ind]) r')"

definition initPopulation :: "VRPSolver \<Rightarrow> rand \<Rightarrow> VRPSolver \<times> rand" where
  "initPopulation s r =
     (let base = range_radash 1 (int (length (stops s))) nat @
                 range_radash 1 (int (driverNum s) - 1) (\<lambda>i. 0)
      in case initPopulation_loop base (individualNum s) (population s) r of
           (pop, r') \<Rightarrow> (s\<lparr>population := pop\<rparr>, r'))"

text \<open>The constructor, with the initial values of the fields.\<close>

definition VRPSolver_new :: "Coord \<Rightarrow> Coord list \<Rightarrow> rand \<Rightarrow> VRPSolver \<times> rand" where
  "VRPSolver_new wh sts r =
     initPopulation
       \<lparr>weightTime = 1, weightDistance = 1, driverNum = 10, coords = wh # sts,
        population = [], individualNum = 100, selectedNum = 50, iterNum = 200,
        stops = sts\<rparr> r"

definition setWeights :: "real \<Rightarrow> real \<Rightarrow> VRPSolver \<Rightarrow> VRPSolver" where
  "setWeights wt wd s = s\<lparr>weightTime := wt, weightDistance := wd\<rparr>"

definition fitness_of :: "VRPSolver \<Rightarrow> nat list \<Rightarrow> error + real" where
  "fitness_of s individual =
     (case getFitness s individual of Inl e \<Rightarrow> Inl e | Inr res \<Rightarrow> Inr (fitness res))"

definition select :: "VRPSolver \<Rightarrow> error + nat list list" where
  "select s =
     (case sort_radash (population s) (fitness_of s) True of
        Inl e \<Rightarrow> Inl e
      | Inr ranked \<Rightarrow> Inr (slice ranked 0 (int (selectedNum s))))"

text \<open>
  The loop of \<open>mutation\<close>, by the number of rounds left. \<open>shuffle\<close> of \<open>null\<close> or
  \<open>undefined\<close> throws.
\<close>

fun mutation_loop :: "nat list list \<Rightarrow> nat \<Rightarrow> nat list list \<Rightarrow> rand \<Rightarrow> error + nat list list \<times> rand" where
  "mutation_loop pop 0 mutations r = Inr (mutations, r)"
| "mutation_loop pop (Suc k) mutations r =
     (case draw pop r of
        (None, r') \<Rightarrow> Inl TypeError
      | (Some source, r') \<Rightarrow>
          (case shuffle source r' of
             (m, r'') \<Rightarrow> mutation_loop pop k (mutations @ [m]) r''))"

definition mutation :: "VRPSolver \<Rightarrow> rand \<Rightarrow> error + nat list list \<times> rand" where
  "mutation s r =
     mutation_loop (population s) (nat (int (individualNum s) - int (selectedNum s))) [] r"

definition reproduce :: "VRPSolver \<Rightarrow> rand \<Rightarrow> error + VRPSolver \<times> rand" where
  "reproduce s r =
     (case select s of
        Inl e \<Rightarrow> Inl e
      | Inr selectedIndividuals \<Rightarrow>
          (case mutation s r of
             Inl e \<Rightarrow> Inl e
           | Inr (mutations, r') \<Rightarrow>
               Inr (s\<lparr>population := selectedIndividuals @ mutations\<rparr>, r')))"

text \<open>The first loop of \<open>solve\<close>: \<open>n\<close> generations.\<close>

fun generations :: "nat \<Rightarrow> VRPSolver \<Rightarrow> rand \<Rightarrow> error + VRPSolver \<times> rand" where
  "generations 0 s r = Inr (s, r)"
| "generations (Suc n) s r =
     (case reproduce s r of
        Inl e \<Rightarrow> Inl e
      | Inr (s', r') \<Rightarrow> generations n s' r')"

subsection \<open>The result\<close>

definition MAP_URL :: string where
  "MAP_URL = ''https://www.google.com/maps/dir/''"

text \<open>
  The body of the arrow function that \<open>solve\<close> maps over the routes. The conversion
  of a number to a string in the template literal is the parameter \<open>show_num\<close>.
\<close>

definition build_route :: "(real \<Rightarrow> string) \<Rightarrow> VRPSolver \<Rightarrow> nat list \<Rightarrow> error + VRPRoute" where
  "build_route show_num s route =
     (case getRouteDistance s route of
        Inl e \<Rightarrow> Inl e
      | Inr d \<Rightarrow>
          (let idxs = [0] @ route @ [0];
               ps = map (\<lambda>idx. at_index (coords s) (int idx)) idxs
           in if None \<in> set ps then Inl TypeError
              else
                (let cstrs = map (\<lambda>p. show_num (latitude (the p)) @ '','' @ show_num (longitude (the p))) ps
                 in Inr \<lparr>paths = map the ps, indices = idxs, time = getRouteTime d,
                         driveTime = d / DRIVE_SPEED, distance = d,
                         googleMapUrl = MAP_URL @ join ''/'' cstrs\<rparr>)))"

text \<open>\<open>solve\<close> returns the plan; the model returns the final solver and the rest of the random stream with it.\<close>

definition solve :: "(real \<Rightarrow> string) \<Rightarrow> VRPSolver \<Rightarrow> rand \<Rightarrow> error + VRPSolve \<times> VRPSolver \<times> rand" where
  "solve show_num s r =
     (case generations (iterNum s) s r of
        Inl e \<Rightarrow> Inl e
      | Inr (s', r') \<Rightarrow>
          (case sort_radash (population s') (fitness_of s') True of
             Inl e \<Rightarrow> Inl e
           | Inr results \<Rightarrow>
               (case (case results of [] \<Rightarrow> getFitness_undefined s' | best # _ \<Rightarrow> getFitness s' best) of
                  Inl e \<Rightarrow> Inl e
                | Inr res \<Rightarrow>
                    (case collect (map (build_route show_num s') (fit_routes res)) of
                       Inl e \<Rightarrow> Inl e
                     | Inr rs \<Rightarrow>
                         Inr (\<lparr>routes = rs, totalDistance = fit_totalDistance res,
                               totalTime = fit_totalTime res\<rparr>, s', r')))))"

definition generate :: "(real \<Rightarrow> string) \<Rightarrow> PlanInput \<Rightarrow> rand \<Rightarrow> error + VRPSolve \<times> VRPSolver \<times> rand" where
  "generate show_num formData r =
     (case VRPSolver_new (warehouse formData) (plan_stops formData) r of
        (solver, r') \<Rightarrow>
          (let solver' =
                 (if mode formData = TimeOptimized then setWeights 100 1 solver
                  else if mode formData = DistanceOptimized then setWeights 1 100 solver
                  else solver)
           in solve show_num solver' r'))"

section \<open>Notions used in the statements\<close>

text \<open>\<open>Math.random\<close> returns numbers in the interval from 0 (included) to 1 (excluded).\<close>

definition rand_ok :: "rand \<Rightarrow> bool" where
  "rand_ok r \<longleftrightarrow> (\<forall>i. 0 \<le> r i \<and> r i < 1)"

text \<open>Every entry of an individual is an index of the coordinate table.\<close>

definition valid_individual :: "VRPSolver \<Rightarrow> nat list \<Rightarrow> bool" where
  "valid_individual s ind \<longleftrightarrow> (\<forall>x\<in>set ind. x < length (coords s))"

text \<open>
  The invariant of the solver: the coordinate table holds the warehouse, the population
  has \<open>individualNum\<close> individuals, and every individual is valid.
\<close>

definition wf_solver :: "VRPSolver \<Rightarrow> bool" where
  "wf_solver s \<longleftrightarrow>
     coords s \<noteq> [] \<and> length (population s) = individualNum s \<and>
     (\<forall>ind\<in>set (population s). valid_individual s ind)"

text \<open>The key by which a descending sort ranks: the negated value of the getter.\<close>

definition rank_key :: "('a \<Rightarrow> error + real) \<Rightarrow> 'a \<Rightarrow> real" where
  "rank_key g = (\<lambda>x. - projr (g x))"

text \<open>The list that \<open>initPopulation\<close> shuffles, for \<open>n\<close> stops and a number of drivers.\<close>

definition base_individual :: "nat \<Rightarrow> nat \<Rightarrow> nat list" where
  "base_individual n drivers =
     range_radash 1 (int n) nat @ range_radash 1 (int drivers - 1) (\<lambda>i. 0)"

text \<open>A coordinate for examples.\<close>

definition origin :: Coord where
  "origin = \<lparr>longitude = 0, latitude = 0\<rparr>"

text \<open>
  Splitting on zero markers, as the specification words the decoding: scanning left to
  right, every marker closes the current run; a run of length greater than 0 becomes a
  route, a run of length 0 is dropped; the end of the sequence closes the last run.
  The first argument is the run collected so far.
\<close>

fun split_runs :: "nat list \<Rightarrow> nat list \<Rightarrow> nat list list" where
  "split_runs cur [] = (if cur = [] then [] else [cur])"
| "split_runs cur (x # xs) =
     (if x = 0 then (if cur = [] then [] else [cur]) @ split_runs [] xs
      else split_runs (cur @ [x]) xs)"

text \<open>
  An individual for 92 stops and 10 drivers whose ninth marker stands at index 99, and
  values of \<open>Math.random\<close> with which the first \<open>shuffle\<close> of the constructor
  returns it.
\<close>

definition late_stop :: "nat list" where
  "late_stop = [1..<92] @ replicate 9 0 @ [92]"

definition late_rand :: rand where
  "late_rand i = (if i < 91 then real i / 1000 else if i = 91 then 1 / 2 else 1 / 4)"

text \<open>The sum of the distances between the neighbours of a closed route, by indices into the coordinate table.\<close>

fun path_sum :: "Coord list \<Rightarrow> nat list \<Rightarrow> real" where
  "path_sum cs (i # j # rest) = getDistanceBetweenCoords (cs ! i) (cs ! j) + path_sum cs (j # rest)"
| "path_sum cs fullRoute = 0"

text \<open>For examples: \<open>Math.random\<close> returning 0 at every call, and every number printed as \<open>0\<close>.\<close>

definition zero_rand :: rand where
  "zero_rand = (\<lambda>i. 0)"

definition show_zero :: "real \<Rightarrow> string" where
  "show_zero = (\<lambda>x. ''0'')"

section \<open>Properties\<close>

subsection \<open>Elapsed time of a route\<close>

text \<open>
  C3. For every distance \<open>d \<ge> 0\<close>, at the fixed speed of 50 km/h, the elapsed time
  is 24 hours for every complete block of 8 driving hours plus the driving time left
  over, \<open>24 * floor (d/50/8) + (d/50 mod 8)\<close>, the remainder written as
  \<open>x - 8 * floor (x/8)\<close>; at exactly 400 km it is 24 hours.
\<close>

theorem getRouteTime_formula:
  "0 \<le> d \<Longrightarrow>
     DRIVE_SPEED = 50 \<and>
     getRouteTime d =
       24 * real_of_int (floor (d / 50 / 8)) + (d / 50 - 8 * real_of_int (floor (d / 50 / 8))) \<and>
     getRouteTime 400 = 24"
  by (simp add: getRouteTime_def js_rem_def DRIVE_SPEED_def Let_def)

theorem getRouteTime_formula_witness:
  "(0::real) \<le> 400 \<and> getRouteTime 400 = 24 \<and> getRouteTime 400 \<noteq> 0 \<and> getRouteTime 400 \<noteq> 32"
  using getRouteTime_formula [of 400] by simp

subsection \<open>Auxiliary facts: random helpers, decoding, fitness\<close>

lemma shuffle_mset: "mset (fst (shuffle xs r)) = mset xs"
proof -
  have "mset (map snd (sort_key fst (zip (map r [0..<length xs]) xs))) =
        mset (map snd (zip (map r [0..<length xs]) xs))"
    by (metis mset_map mset_sort)
  moreover have "map snd (zip (map r [0..<length xs]) xs) = xs"
    by (simp add: map_snd_zip)
  ultimately show ?thesis by (simp only: shuffle_def Let_def fst_conv)
qed

lemma shuffle_set: "set (fst (shuffle xs r)) = set xs"
  using shuffle_mset [of xs r] by (metis set_mset_mset)

lemma shuffle_length: "length (fst (shuffle xs r)) = length xs"
  using shuffle_mset [of xs r] by (metis size_mset)

lemma shuffle_rand_ok: "rand_ok r \<Longrightarrow> rand_ok (snd (shuffle xs r))"
  by (simp add: shuffle_def rand_ok_def Let_def)

lemma draw_ok:
  assumes "xs \<noteq> []" "rand_ok r"
  shows "\<exists>x\<in>set xs. draw xs r = (Some x, \<lambda>i. r (Suc i))"
proof -
  let ?n = "length xs"
  let ?k = "floor (r 0 * real ?n)"
  from assms have n: "0 < ?n" by simp
  from assms have r0: "0 \<le> r 0" "r 0 < 1" by (simp_all add: rand_ok_def)
  have lo: "0 \<le> ?k" using r0 by simp
  have "r 0 * real ?n < real ?n" using r0 n by simp
  then have hi: "?k < int ?n" by (simp add: floor_less_iff)
  have "draw xs r = (Some (xs ! nat ?k), \<lambda>i. r (Suc i))"
    using lo hi n by (simp add: draw_def random_radash_def at_index_def Let_def)
  moreover have "nat ?k < ?n" using lo hi by linarith
  then have "xs ! nat ?k \<in> set xs" by (rule nth_mem)
  ultimately show ?thesis by blast
qed

lemma mutation_loop_ok:
  assumes "pop \<noteq> []"
  shows "rand_ok r \<Longrightarrow> \<exists>ms r'. mutation_loop pop k acc r = Inr (acc @ ms, r') \<and> length ms = k \<and>
           rand_ok r' \<and> (\<forall>m\<in>set ms. \<exists>src\<in>set pop. mset m = mset src)"
proof (induction k arbitrary: acc r)
  case 0
  then show ?case by simp
next
  case (Suc k)
  from draw_ok [OF assms Suc.prems] obtain src where
    src: "src \<in> set pop" "draw pop r = (Some src, \<lambda>i. r (Suc i))" by blast
  let ?r1 = "\<lambda>i. r (Suc i)"
  have r1: "rand_ok ?r1" using Suc.prems by (simp add: rand_ok_def)
  obtain m r2 where sh: "shuffle src ?r1 = (m, r2)" by (cases "shuffle src ?r1")
  have m: "mset m = mset src" using shuffle_mset [of src ?r1] sh by simp
  have r2: "rand_ok r2" using shuffle_rand_ok [OF r1, of src] sh by simp
  from Suc.IH [OF r2, of "acc @ [m]"] obtain ms r' where
    ih: "mutation_loop pop k (acc @ [m]) r2 = Inr ((acc @ [m]) @ ms, r')" "length ms = k"
        "rand_ok r'" "\<forall>m\<in>set ms. \<exists>src\<in>set pop. mset m = mset src" by blast
  have "mutation_loop pop (Suc k) acc r = Inr (acc @ (m # ms), r')"
    using src sh ih by simp
  moreover have "\<forall>x\<in>set (m # ms). \<exists>src\<in>set pop. mset x = mset src"
    using ih(4) m src(1) by auto
  ultimately show ?case using ih(2,3) by (intro exI [of _ "m # ms"] exI [of _ r']) simp
qed

lemma collect_map_Inr: "collect (map Inr ys) = Inr ys"
  by (induction ys) auto

lemma collect_Inr_D: "collect xs = Inr ys \<Longrightarrow> xs = map Inr ys"
  by (induction xs arbitrary: ys) (auto split: sum.splits)

lemma collect_Inr: "collect xs = Inr ys \<longleftrightarrow> xs = map Inr ys"
  using collect_map_Inr collect_Inr_D by metis

lemma collect_map_ok:
  "\<forall>x\<in>set xs. \<exists>v. f x = Inr v \<Longrightarrow> \<exists>ys. collect (map f xs) = Inr ys"
proof (induction xs)
  case Nil
  then show ?case by simp
next
  case (Cons a xs)
  then obtain v ys where "f a = Inr v" "collect (map f xs) = Inr ys" by auto
  then show ?case by simp
qed

lemma at_index_Some: "i < length xs \<Longrightarrow> at_index xs (int i) = Some (xs ! i)"
  by (simp add: at_index_def)

lemma getRouteDistance_loop_ok:
  "\<forall>x\<in>set fr. x < length cs \<Longrightarrow> \<exists>d. getRouteDistance_loop cs fr d0 = Inr d"
  by (induction cs fr d0 rule: getRouteDistance_loop.induct) (auto simp: at_index_Some)

lemma getRouteDistance_ok:
  "coords s \<noteq> [] \<Longrightarrow> \<forall>x\<in>set route. x < length (coords s) \<Longrightarrow> \<exists>d. getRouteDistance s route = Inr d"
  unfolding getRouteDistance_def Let_def
  by (rule getRouteDistance_loop_ok) auto

lemma set_slice: "set (slice xs a b) \<subseteq> set xs"
  unfolding slice_def Let_def
  by (meson set_take_subset set_drop_subset subset_trans)

lemma decode_step_subset:
  "\<forall>rt\<in>set (fst st). set rt \<subseteq> set ind \<Longrightarrow> \<forall>rt\<in>set (fst (decode_step ind st i)). set rt \<subseteq> set ind"
  using set_slice [of ind]
  by (cases st) (auto simp: decode_step_def Let_def)

lemma decode_loop_subset:
  "\<forall>rt\<in>set (fst st). set rt \<subseteq> set ind \<Longrightarrow> \<forall>rt\<in>set (fst (foldl (decode_step ind) st is)). set rt \<subseteq> set ind"
proof (induction "is" arbitrary: st)
  case Nil
  then show ?case by simp
next
  case (Cons i "is")
  show ?case using Cons.IH [OF decode_step_subset [OF Cons.prems]] by simp
qed

lemma decode_subset: "rt \<in> set (decode s ind) \<Longrightarrow> set rt \<subseteq> set ind"
proof -
  assume a: "rt \<in> set (decode s ind)"
  obtain rts w where f: "foldl (decode_step ind) ([], - 1) [0..<individualNum s] = (rts, w)"
    by (cases "foldl (decode_step ind) ([], - 1) [0..<individualNum s]")
  have "\<forall>rt\<in>set rts. set rt \<subseteq> set ind"
    using decode_loop_subset [of "([], - 1)" ind "[0..<individualNum s]"] f by simp
  moreover have "set (slice_from ind (w + 1)) \<subseteq> set ind"
    by (simp add: slice_from_def set_slice)
  ultimately show ?thesis using a f
    by (auto simp: decode_def Let_def split: if_splits)
qed

lemma evaluate_ok:
  assumes "coords s \<noteq> []" "\<forall>rt\<in>set rts. \<forall>x\<in>set rt. x < length (coords s)"
  shows "\<exists>res. evaluate s rts = Inr res"
proof -
  have "\<forall>rt\<in>set rts. \<exists>d. getRouteDistance s rt = Inr d"
    using assms getRouteDistance_ok by blast
  from collect_map_ok [OF this] obtain ds where "collect (map (getRouteDistance s) rts) = Inr ds" ..
  then show ?thesis by (simp add: evaluate_def Let_def)
qed

lemma getFitness_ok:
  assumes "coords s \<noteq> []" "valid_individual s ind"
  shows "\<exists>res. getFitness s ind = Inr res"
  unfolding getFitness_def
proof (rule evaluate_ok [OF assms(1)])
  show "\<forall>rt\<in>set (decode s ind). \<forall>x\<in>set rt. x < length (coords s)"
    using decode_subset [of _ s ind] assms(2) by (auto simp: valid_individual_def)
qed

subsection \<open>Auxiliary facts: ranking, one generation, the constructor\<close>

lemma insort_key_tagged:
  "\<forall>p\<in>set zs. fst p = h (snd p) \<Longrightarrow>
   map snd (insort_key (\<lambda>p. f (fst p)) (h a, a) zs) = insort_key (\<lambda>x. f (h x)) a (map snd zs)"
  by (induction zs) auto

lemma sort_key_tagged:
  "map snd (sort_key (\<lambda>p. f (fst p)) (map (\<lambda>x. (h x, x)) xs)) = sort_key (\<lambda>x. f (h x)) xs"
proof (induction xs)
  case Nil
  then show ?case by simp
next
  case (Cons a xs)
  have "\<forall>p\<in>set (sort_key (\<lambda>p. f (fst p)) (map (\<lambda>x. (h x, x)) xs)). fst p = h (snd p)"
    by auto
  from insort_key_tagged [OF this, of f a] Cons.IH show ?case by simp
qed

lemma zip_map_self: "zip (map h xs) xs = map (\<lambda>x. (h x, x)) xs"
  by (induction xs) auto

lemma collect_map_projr:
  "\<forall>x\<in>set xs. \<exists>v. g x = Inr v \<Longrightarrow> collect (map g xs) = Inr (map (\<lambda>x. projr (g x)) xs)"
  by (induction xs) auto


lemma sort_radash_desc:
  assumes "\<forall>x\<in>set xs. \<exists>v. g x = Inr v"
  shows "sort_radash xs g True = Inr (if length xs < 2 then xs else sort_key (rank_key g) xs)"
proof (cases "length xs < 2")
  case True
  then show ?thesis by (simp add: sort_radash_def)
next
  case False
  have "map snd (sort_key (\<lambda>p. - fst p) (zip (map (\<lambda>x. projr (g x)) xs) xs)) =
        sort_key (\<lambda>x. - projr (g x)) xs"
    using sort_key_tagged [of uminus "\<lambda>x. projr (g x)" xs] by (simp add: zip_map_self)
  then show ?thesis
    using False by (simp add: sort_radash_def collect_map_projr [OF assms] rank_key_def)
qed

lemma sort_key_small: "length xs < 2 \<Longrightarrow> sort_key f xs = xs"
  by (cases xs) (auto simp: length_Suc_conv)

lemma sort_radash_desc':
  assumes "\<forall>x\<in>set xs. \<exists>v. g x = Inr v"
  shows "sort_radash xs g True = Inr (sort_key (rank_key g) xs)"
  using sort_radash_desc [OF assms] sort_key_small [of xs "rank_key g"] by simp

lemma slice_0: "slice xs 0 (int k) = take k xs"
  by (simp add: slice_def Let_def min_def)

lemma fitness_of_ok:
  "coords s \<noteq> [] \<Longrightarrow> valid_individual s ind \<Longrightarrow> \<exists>v. fitness_of s ind = Inr v"
  using getFitness_ok [of s ind] by (auto simp: fitness_of_def)

lemma select_ok:
  assumes "wf_solver s"
  shows "select s = Inr (take (selectedNum s) (sort_key (rank_key (fitness_of s)) (population s)))"
proof -
  have "\<forall>x\<in>set (population s). \<exists>v. fitness_of s x = Inr v"
    using assms fitness_of_ok by (auto simp: wf_solver_def)
  from sort_radash_desc' [OF this] show ?thesis
    by (simp add: select_def slice_0)
qed

lemma mutation_ok:
  assumes "wf_solver s" "rand_ok r"
  shows "\<exists>ms r'. mutation s r = Inr (ms, r') \<and> length ms = individualNum s - selectedNum s \<and>
           rand_ok r' \<and> (\<forall>m\<in>set ms. \<exists>src\<in>set (population s). mset m = mset src)"
proof (cases "population s = []")
  case True
  then have "individualNum s = 0" using assms(1) by (simp add: wf_solver_def)
  then show ?thesis using assms(2) by (simp add: mutation_def)
next
  case False
  have k: "nat (int (individualNum s) - int (selectedNum s)) = individualNum s - selectedNum s"
    by simp
  from mutation_loop_ok [OF False assms(2), of "individualNum s - selectedNum s" "[]"]
  show ?thesis unfolding mutation_def k by simp
qed

lemma valid_individual_mset:
  "mset m = mset src \<Longrightarrow> valid_individual s src \<Longrightarrow> valid_individual s m"
  by (metis valid_individual_def set_mset_mset)

lemma valid_individual_population [simp]:
  "valid_individual (s\<lparr>population := p\<rparr>) ind = valid_individual s ind"
  by (simp add: valid_individual_def)

lemma reproduce_ok:
  assumes "wf_solver s" "rand_ok r"
  shows "\<exists>sel ms r'. reproduce s r = Inr (s\<lparr>population := sel @ ms\<rparr>, r') \<and>
           select s = Inr sel \<and> mutation s r = Inr (ms, r') \<and>
           sel = take (selectedNum s) (sort_key (rank_key (fitness_of s)) (population s)) \<and>
           length ms = individualNum s - selectedNum s \<and>
           wf_solver (s\<lparr>population := sel @ ms\<rparr>) \<and> rand_ok r'"
proof -
  let ?sel = "take (selectedNum s) (sort_key (rank_key (fitness_of s)) (population s))"
  from mutation_ok [OF assms] obtain ms r' where
    mu: "mutation s r = Inr (ms, r')" "length ms = individualNum s - selectedNum s" "rand_ok r'"
        "\<forall>m\<in>set ms. \<exists>src\<in>set (population s). mset m = mset src" by blast
  have sel: "select s = Inr ?sel" by (rule select_ok [OF assms(1)])
  have len: "length (population s) = individualNum s" using assms(1) by (simp add: wf_solver_def)
  have "set ?sel \<subseteq> set (population s)"
    using set_take_subset [of "selectedNum s" "sort_key (rank_key (fitness_of s)) (population s)"] by simp
  then have v1: "\<forall>ind\<in>set ?sel. valid_individual s ind"
    using assms(1) by (auto simp: wf_solver_def)
  have v2: "\<forall>ind\<in>set ms. valid_individual s ind"
    using mu(4) assms(1) valid_individual_mset unfolding wf_solver_def by blast
  have "wf_solver (s\<lparr>population := ?sel @ ms\<rparr>)"
    using assms(1) v1 v2 mu(2) len by (auto simp: wf_solver_def)
  moreover have "reproduce s r = Inr (s\<lparr>population := ?sel @ ms\<rparr>, r')"
    using sel mu(1) by (simp add: reproduce_def)
  ultimately show ?thesis using sel mu by blast
qed

lemma generations_ok:
  "wf_solver s \<Longrightarrow> rand_ok r \<Longrightarrow>
     \<exists>s' r'. generations n s r = Inr (s', r') \<and> wf_solver s' \<and> rand_ok r' \<and>
       s' = s\<lparr>population := population s'\<rparr>"
proof (induction n arbitrary: s r)
  case 0
  then show ?case by simp
next
  case (Suc n)
  from reproduce_ok [OF Suc.prems] obtain p r1 where
    st: "reproduce s r = Inr (s\<lparr>population := p\<rparr>, r1)" "wf_solver (s\<lparr>population := p\<rparr>)" "rand_ok r1"
    by blast
  from Suc.IH [OF st(2,3)] obtain s' r' where
    ih: "generations n (s\<lparr>population := p\<rparr>) r1 = Inr (s', r')" "wf_solver s'" "rand_ok r'"
        "s' = s\<lparr>population := p\<rparr>\<lparr>population := population s'\<rparr>" by blast
  have "generations (Suc n) s r = Inr (s', r')" using st(1) ih(1) by simp
  moreover have "s' = s\<lparr>population := population s'\<rparr>" using ih(4) by (metis VRPSolver.update_convs(5) VRPSolver.surjective VRPSolver.select_convs(5))
  ultimately show ?case using ih(2,3) by blast
qed

lemma initPopulation_loop_ok:
  "rand_ok r \<Longrightarrow>
     \<exists>inds r'. initPopulation_loop base k pop r = (pop @ inds, r') \<and> length inds = k \<and>
       rand_ok r' \<and> (\<forall>ind\<in>set inds. mset ind = mset base)"
proof (induction k arbitrary: pop r)
  case 0
  then show ?case by simp
next
  case (Suc k)
  obtain ind r1 where sh: "shuffle base r = (ind, r1)" by (cases "shuffle base r")
  have i: "mset ind = mset base" using shuffle_mset [of base r] sh by simp
  have r1: "rand_ok r1" using shuffle_rand_ok [OF Suc.prems, of base] sh by simp
  from Suc.IH [OF r1, of "pop @ [ind]"] obtain inds r' where
    ih: "initPopulation_loop base k (pop @ [ind]) r1 = ((pop @ [ind]) @ inds, r')" "length inds = k"
        "rand_ok r'" "\<forall>ind\<in>set inds. mset ind = mset base" by blast
  have "initPopulation_loop base (Suc k) pop r = (pop @ (ind # inds), r')" using sh ih(1) by simp
  then show ?case using ih(2,3,4) i by (intro exI [of _ "ind # inds"] exI [of _ r']) simp
qed


lemma base_individual_bound: "x \<in> set (base_individual n d) \<Longrightarrow> x \<le> n"
  by (auto simp: base_individual_def range_radash_def Let_def split: if_splits)

lemma VRPSolver_new_ok:
  assumes "rand_ok r"
  shows "\<exists>pop r'. VRPSolver_new wh sts r =
           (\<lparr>weightTime = 1, weightDistance = 1, driverNum = 10, coords = wh # sts,
             population = pop, individualNum = 100, selectedNum = 50, iterNum = 200,
             stops = sts\<rparr>, r') \<and> length pop = 100 \<and> rand_ok r' \<and>
           (\<forall>ind\<in>set pop. mset ind = mset (base_individual (length sts) 10))"
proof -
  from initPopulation_loop_ok [OF assms, of "base_individual (length sts) 10" 100 "[]"]
  obtain inds r' where
    "initPopulation_loop (base_individual (length sts) 10) 100 [] r = (inds, r')" "length inds = 100"
    "rand_ok r'" "\<forall>ind\<in>set inds. mset ind = mset (base_individual (length sts) 10)" by auto
  then show ?thesis
    by (simp add: VRPSolver_new_def initPopulation_def base_individual_def Let_def)
qed

lemma VRPSolver_new_wf:
  assumes "rand_ok r"
  shows "wf_solver (fst (VRPSolver_new wh sts r)) \<and> rand_ok (snd (VRPSolver_new wh sts r))"
proof -
  from VRPSolver_new_ok [OF assms, of wh sts] obtain pop r' where
    n: "VRPSolver_new wh sts r =
           (\<lparr>weightTime = 1, weightDistance = 1, driverNum = 10, coords = wh # sts,
             population = pop, individualNum = 100, selectedNum = 50, iterNum = 200,
             stops = sts\<rparr>, r')" "length pop = 100" "rand_ok r'"
       "\<forall>ind\<in>set pop. mset ind = mset (base_individual (length sts) 10)" by blast
  have "\<forall>ind\<in>set pop. \<forall>x\<in>set ind. x \<le> length sts"
    using n(4) base_individual_bound by (metis set_mset_mset)
  then show ?thesis using n(1,2,3) by (auto simp: wf_solver_def valid_individual_def less_Suc_eq_le)
qed

lemma getRouteDistance_population [simp]:
  "getRouteDistance (s\<lparr>population := p\<rparr>) = getRouteDistance s"
  by (simp add: fun_eq_iff getRouteDistance_def)

lemma decode_population [simp]: "decode (s\<lparr>population := p\<rparr>) = decode s"
  by (simp add: fun_eq_iff decode_def)

lemma evaluate_population [simp]: "evaluate (s\<lparr>population := p\<rparr>) = evaluate s"
  by (simp add: fun_eq_iff evaluate_def Let_def split: sum.splits)

lemma getFitness_population [simp]: "getFitness (s\<lparr>population := p\<rparr>) = getFitness s"
  by (simp add: fun_eq_iff getFitness_def)

lemma generations_Suc_right:
  "generations (Suc g) s r =
     (case generations g s r of Inl e \<Rightarrow> Inl e | Inr (s', r') \<Rightarrow> reproduce s' r')"
proof (induction g arbitrary: s r)
  case 0
  then show ?case by (simp split: sum.splits)
next
  case (Suc g)
  show ?case
  proof (cases "reproduce s r")
    case (Inl e)
    then show ?thesis by simp
  next
    case (Inr p)
    obtain s1 r1 where p: "p = (s1, r1)" by (cases p)
    have "generations (Suc (Suc g)) s r = generations (Suc g) s1 r1"
      using Inr p by simp
    also have "\<dots> = (case generations g s1 r1 of Inl e \<Rightarrow> Inl e | Inr (s', r') \<Rightarrow> reproduce s' r')"
      by (rule Suc.IH)
    also have "generations g s1 r1 = generations (Suc g) s r"
      using Inr p by simp
    finally show ?thesis .
  qed
qed

lemma fitness_of_population [simp]: "fitness_of (s\<lparr>population := p\<rparr>) = fitness_of s"
  by (simp add: fun_eq_iff fitness_of_def)

lemma wf_setWeights: "wf_solver (setWeights wt wd s) = wf_solver s"
  by (simp add: wf_solver_def setWeights_def valid_individual_def)

lemma reachable:
  assumes "rand_ok r" "VRPSolver_new wh sts r = (s0, r0)"
  shows "\<exists>sg rg. generations g (setWeights wt wd s0) r0 = Inr (sg, rg) \<and> wf_solver sg \<and> rand_ok rg \<and>
           sg = (setWeights wt wd s0)\<lparr>population := population sg\<rparr>"
proof -
  from VRPSolver_new_wf [OF assms(1), of wh sts] assms(2)
  have "wf_solver (setWeights wt wd s0)" "rand_ok r0" by (simp_all add: wf_setWeights)
  from generations_ok [OF this] show ?thesis .
qed

lemma new_fields:
  assumes "VRPSolver_new wh sts r = (s0, r0)"
  shows "individualNum s0 = 100 \<and> selectedNum s0 = 50 \<and> iterNum s0 = 200 \<and> driverNum s0 = 10 \<and>
         coords s0 = wh # sts \<and> stops s0 = sts \<and> weightTime s0 = 1 \<and> weightDistance s0 = 1"
  using assms by (auto simp: VRPSolver_new_def initPopulation_def Let_def split: prod.splits)

lemma reachable_fields:
  assumes "VRPSolver_new wh sts r = (s0, r0)" "sg = (setWeights wt wd s0)\<lparr>population := p\<rparr>"
  shows "individualNum sg = 100 \<and> selectedNum sg = 50 \<and> iterNum sg = 200 \<and> driverNum sg = 10 \<and>
         coords sg = wh # sts \<and> stops sg = sts \<and> weightTime sg = wt \<and> weightDistance sg = wd"
  using new_fields [OF assms(1)] assms(2) by (simp add: setWeights_def)


lemma individualNum_initPopulation: "individualNum (fst (initPopulation s r)) = individualNum s"
  by (simp add: initPopulation_def Let_def split: prod.splits)

lemma individualNum_new: "individualNum (fst (VRPSolver_new wh sts r)) = 100"
  by (simp add: VRPSolver_new_def individualNum_initPopulation)

lemma decode_cong: "individualNum s = individualNum s' \<Longrightarrow> decode s ind = decode s' ind"
  by (simp add: decode_def)

subsection \<open>Size of the population\<close>

text \<open>
  C8. The constructor leaves a population of exactly \<open>individualNum = 100\<close> individuals,
  and so does every number \<open>g\<close> of generation steps after it (whatever the weights
  set in between): the step from generation \<open>g\<close> replaces the population with the
  \<open>selectedNum = 50\<close> survivors of \<open>select\<close> followed by the
  \<open>individualNum - selectedNum\<close> individuals of \<open>mutation\<close>.
\<close>


theorem population_size:
  assumes "rand_ok r" and "VRPSolver_new wh sts r = (s0, r0)"
  shows "individualNum s0 = 100 \<and> length (population s0) = individualNum s0 \<and>
         (\<forall>g. \<exists>sg rg sel ms r'.
            generations g (setWeights wt wd s0) r0 = Inr (sg, rg) \<and>
            individualNum sg = 100 \<and> selectedNum sg = 50 \<and>
            length (population sg) = individualNum sg \<and>
            select sg = Inr sel \<and> length sel = selectedNum sg \<and>
            mutation sg rg = Inr (ms, r') \<and> length ms = individualNum sg - selectedNum sg \<and>
            reproduce sg rg = Inr (sg\<lparr>population := sel @ ms\<rparr>, r') \<and>
            generations (Suc g) (setWeights wt wd s0) r0 = reproduce sg rg)"
proof (intro conjI allI)
  show "individualNum s0 = 100" using new_fields [OF assms(2)] by simp
  from VRPSolver_new_wf [OF assms(1), of wh sts] assms(2)
  show "length (population s0) = individualNum s0" by (simp add: wf_solver_def)
next
  fix g
  from reachable [OF assms, of g wt wd] obtain sg rg where
    g: "generations g (setWeights wt wd s0) r0 = Inr (sg, rg)" "wf_solver sg" "rand_ok rg"
       "sg = (setWeights wt wd s0)\<lparr>population := population sg\<rparr>" by blast
  have f: "individualNum sg = 100" "selectedNum sg = 50"
    using reachable_fields [OF assms(2) g(4)] by simp_all
  have len: "length (population sg) = individualNum sg" using g(2) by (simp add: wf_solver_def)
  from reproduce_ok [OF g(2,3)] obtain sel ms r' where
    st: "reproduce sg rg = Inr (sg\<lparr>population := sel @ ms\<rparr>, r')" "select sg = Inr sel"
        "mutation sg rg = Inr (ms, r')"
        "sel = take (selectedNum sg) (sort_key (rank_key (fitness_of sg)) (population sg))"
        "length ms = individualNum sg - selectedNum sg" by blast
  have ls: "length sel = selectedNum sg" using st(4) len f by simp
  have "generations (Suc g) (setWeights wt wd s0) r0 = reproduce sg rg"
    using g(1) by (simp only: generations_Suc_right sum.case prod.case)
  then show "\<exists>sg rg sel ms r'.
            generations g (setWeights wt wd s0) r0 = Inr (sg, rg) \<and>
            individualNum sg = 100 \<and> selectedNum sg = 50 \<and>
            length (population sg) = individualNum sg \<and>
            select sg = Inr sel \<and> length sel = selectedNum sg \<and>
            mutation sg rg = Inr (ms, r') \<and> length ms = individualNum sg - selectedNum sg \<and>
            reproduce sg rg = Inr (sg\<lparr>population := sel @ ms\<rparr>, r') \<and>
            generations (Suc g) (setWeights wt wd s0) r0 = reproduce sg rg"
    using g(1) f len st ls by blast
qed

theorem population_size_witness:
  "rand_ok (\<lambda>i. 0) \<and>
   (\<exists>s0 r0 sg rg. VRPSolver_new origin [origin] (\<lambda>i. 0) = (s0, r0) \<and>
      length (population s0) = 100 \<and>
      generations 200 (setWeights 1 1 s0) r0 = Inr (sg, rg) \<and> length (population sg) = 100)"
proof -
  have r: "rand_ok (\<lambda>i. 0)" by (simp add: rand_ok_def)
  obtain s0 r0 where n: "VRPSolver_new origin [origin] (\<lambda>i. 0) = (s0, r0)"
    by (cases "VRPSolver_new origin [origin] (\<lambda>i. 0)")
  from population_size [OF r n, of 1 1] have
    a: "length (population s0) = 100"
    and b: "\<exists>sg rg. generations 200 (setWeights 1 1 s0) r0 = Inr (sg, rg) \<and> length (population sg) = 100"
    by (simp, metis)
  with r n show ?thesis by blast
qed

subsection \<open>Drawing the source of a mutation\<close>

text \<open>
  C10. In every generation reached from the constructor the population is not empty (it
  has \<open>individualNum\<close> individuals), so \<open>draw\<close> returns an individual of the
  population for every value of \<open>Math.random\<close>, and \<open>mutation\<close> returns
  without an exception exactly \<open>individualNum - selectedNum = 50\<close> mutants.
\<close>

theorem draw_never_null:
  assumes "rand_ok r" and "VRPSolver_new wh sts r = (s0, r0)"
    and "generations g (setWeights wt wd s0) r0 = Inr (sg, rg)"
  shows "population sg \<noteq> [] \<and> length (population sg) = individualNum sg \<and>
         (\<forall>r1. rand_ok r1 \<longrightarrow> (\<exists>src\<in>set (population sg). fst (draw (population sg) r1) = Some src)) \<and>
         (\<exists>ms r'. mutation sg rg = Inr (ms, r') \<and>
            length ms = individualNum sg - selectedNum sg \<and> length ms = 50)"
proof -
  from reachable [OF assms(1,2), of g wt wd] assms(3) have
    wf: "wf_solver sg" "rand_ok rg" and sg: "sg = (setWeights wt wd s0)\<lparr>population := population sg\<rparr>"
    by auto
  have f: "individualNum sg = 100" "selectedNum sg = 50"
    using reachable_fields [OF assms(2) sg] by simp_all
  have len: "length (population sg) = individualNum sg" using wf(1) by (simp add: wf_solver_def)
  then have ne: "population sg \<noteq> []" using f by auto
  have dr: "\<forall>r1. rand_ok r1 \<longrightarrow> (\<exists>src\<in>set (population sg). fst (draw (population sg) r1) = Some src)"
  proof (intro allI impI)
    fix r1 :: rand
    assume "rand_ok r1"
    from draw_ok [OF ne this] show "\<exists>src\<in>set (population sg). fst (draw (population sg) r1) = Some src"
      by auto
  qed
  from mutation_ok [OF wf] obtain ms r' where
    "mutation sg rg = Inr (ms, r')" "length ms = individualNum sg - selectedNum sg" by blast
  then have "\<exists>ms r'. mutation sg rg = Inr (ms, r') \<and>
            length ms = individualNum sg - selectedNum sg \<and> length ms = 50"
    using f by auto
  with ne len dr show ?thesis by blast
qed

theorem draw_never_null_witness:
  "rand_ok (\<lambda>i. 1 / 2) \<and>
   (\<exists>s0 r0 sg rg. VRPSolver_new origin [origin] (\<lambda>i. 1 / 2) = (s0, r0) \<and>
      generations 200 (setWeights 100 1 s0) r0 = Inr (sg, rg) \<and>
      population sg \<noteq> [] \<and>
      (\<exists>src\<in>set (population sg). fst (draw (population sg) (\<lambda>i. 1 / 2)) = Some src) \<and>
      (\<exists>ms r'. mutation sg rg = Inr (ms, r') \<and> length ms = 50))"
proof -
  have r: "rand_ok (\<lambda>i. 1 / 2)" by (simp add: rand_ok_def)
  obtain s0 r0 where n: "VRPSolver_new origin [origin] (\<lambda>i. 1 / 2) = (s0, r0)"
    by (cases "VRPSolver_new origin [origin] (\<lambda>i. 1 / 2)")
  from reachable [OF r n, of 200 100 1] obtain sg rg where
    g: "generations 200 (setWeights 100 1 s0) r0 = Inr (sg, rg)" by blast
  from draw_never_null [OF r n g] r have
    "population sg \<noteq> []"
    "\<exists>src\<in>set (population sg). fst (draw (population sg) (\<lambda>i. 1 / 2)) = Some src"
    "\<exists>ms r'. mutation sg rg = Inr (ms, r') \<and> length ms = 50"
    by blast+
  with r n g show ?thesis by blast
qed

subsection \<open>Decoding an individual\<close>

lemma slice_nat: "a \<le> b \<Longrightarrow> b \<le> length xs \<Longrightarrow> slice xs (int a) (int b) = take (b - a) (drop a xs)"
  by (simp add: slice_def Let_def min_def nat_diff_distrib')

lemma slice_from_nat: "a \<le> length xs \<Longrightarrow> slice_from xs (int a) = drop a xs"
  by (simp add: slice_from_def slice_nat)

lemma split_runs_zero:
  "split_runs cur (0 # xs) = (if cur = [] then [] else [cur]) @ split_runs [] xs"
  by simp

lemma append_if_run:
  "(if c = [] then rts else rts @ [c]) @ X = rts @ (if c = [] then [] else [c]) @ X"
  by simp

lemma decode_loop_prefix:
  assumes "n \<le> length ind"
  shows "\<exists>rts p. foldl (decode_step ind) ([], - 1) [0..<n] = (rts, int p - 1) \<and> p \<le> n \<and>
           rts @ split_runs (take (n - p) (drop p ind)) (drop n ind) = split_runs [] ind"
  using assms
proof (induction n)
  case 0
  show ?case by (intro exI [of _ "[]"] exI [of _ 0]) simp
next
  case (Suc n)
  then have n: "n < length ind" by simp
  from Suc obtain rts p where
    ih: "foldl (decode_step ind) ([], - 1) [0..<n] = (rts, int p - 1)" "p \<le> n"
        "rts @ split_runs (take (n - p) (drop p ind)) (drop n ind) = split_runs [] ind"
    by auto
  let ?cur = "take (n - p) (drop p ind)"
  have dr: "drop n ind = ind ! n # drop (Suc n) ind" using n by (simp add: Cons_nth_drop_Suc)
  have st: "foldl (decode_step ind) ([], - 1) [0..<Suc n] = decode_step ind (rts, int p - 1) n"
    using ih(1) by simp
  show ?case
  proof (cases "ind ! n = 0")
    case True
    have sl: "slice ind (int p - 1 + 1) (int n) = ?cur"
      using slice_nat [of p n ind] ih(2) n by simp
    have "decode_step ind (rts, int p - 1) n =
            (if ?cur = [] then rts else rts @ [?cur], int (Suc n) - 1)"
      using True n sl by (simp add: decode_step_def at_index_Some Let_def)
    moreover have "(if ?cur = [] then rts else rts @ [?cur]) @
                     split_runs (take (Suc n - Suc n) (drop (Suc n) ind)) (drop (Suc n) ind) =
                   split_runs [] ind"
    proof -
      have "take (Suc n - Suc n) (drop (Suc n) ind) = []" by simp
      moreover have "drop n ind = 0 # drop (Suc n) ind" using dr True by simp
      ultimately show ?thesis
        using ih(3) by (simp only: split_runs_zero append_if_run)
    qed
    ultimately show ?thesis using st
      by (intro exI [of _ "if ?cur = [] then rts else rts @ [?cur]"] exI [of _ "Suc n"]) simp
  next
    case False
    have "decode_step ind (rts, int p - 1) n = (rts, int p - 1)"
      using False n by (simp add: decode_step_def at_index_Some)
    moreover have "take (Suc n - p) (drop p ind) = ?cur @ [ind ! n]"
    proof -
      have "Suc n - p = Suc (n - p)" using ih(2) by simp
      moreover have "n - p < length (drop p ind)" using n ih(2) by simp
      moreover have "drop p ind ! (n - p) = ind ! n" using n ih(2) by simp
      ultimately show ?thesis by (simp add: take_Suc_conv_app_nth)
    qed
    moreover have "split_runs ?cur (drop n ind) = split_runs (?cur @ [ind ! n]) (drop (Suc n) ind)"
      using False dr by simp
    ultimately show ?thesis using st ih(2,3)
      by (intro exI [of _ rts] exI [of _ p]) simp
  qed
qed

lemma decode_loop_beyond:
  "\<forall>i\<in>set is. length ind \<le> i \<Longrightarrow> foldl (decode_step ind) st is = st"
proof (induction "is" arbitrary: st)
  case Nil
  then show ?case by simp
next
  case (Cons i "is")
  then have "decode_step ind st i = st"
    by (cases st) (simp add: decode_step_def at_index_def)
  then show ?case using Cons by simp
qed

lemma decode_split:
  assumes "length ind \<le> individualNum s"
  shows "decode s ind = split_runs [] ind"
proof -
  let ?n = "length ind"
  from decode_loop_prefix [of ?n ind] obtain rts p where
    lp: "foldl (decode_step ind) ([], - 1) [0..<?n] = (rts, int p - 1)" "p \<le> ?n"
        "rts @ split_runs (drop p ind) [] = split_runs [] ind"
    by auto
  have "[0..<individualNum s] = [0..<?n] @ [?n..<individualNum s]"
    using assms by (metis le_add_diff_inverse upt_add_eq_append zero_le)
  then have "foldl (decode_step ind) ([], - 1) [0..<individualNum s] =
             foldl (decode_step ind) (rts, int p - 1) [?n..<individualNum s]"
    using lp(1) by simp
  also have "\<dots> = (rts, int p - 1)"
    by (rule decode_loop_beyond) simp
  finally have f: "foldl (decode_step ind) ([], - 1) [0..<individualNum s] = (rts, int p - 1)" .
  have sf: "slice_from ind (int p - 1 + 1) = drop p ind"
    using slice_from_nat [OF lp(2)] by simp
  show ?thesis
  proof (cases "p = individualNum s")
    case True
    then have "drop p ind = []" using assms by simp
    then show ?thesis using f lp(3) True by (simp add: decode_def)
  next
    case False
    then have "int p - 1 \<noteq> int (individualNum s) - 1" by simp
    then show ?thesis using f lp(3) sf by (simp add: decode_def Let_def split: if_splits)
  qed
qed

lemma split_runs_concat:
  "concat (split_runs cur xs) = cur @ filter (\<lambda>x. x \<noteq> 0) xs"
  by (induction cur xs rule: split_runs.induct) auto

lemma split_runs_nonempty: "[] \<notin> set (split_runs cur xs)"
  by (induction cur xs rule: split_runs.induct) auto

lemma split_runs_no_zero:
  "0 \<notin> set cur \<Longrightarrow> rt \<in> set (split_runs cur xs) \<Longrightarrow> 0 \<notin> set rt"
  by (induction cur xs rule: split_runs.induct) (auto split: if_splits)

lemma insort_key_last:
  "\<forall>z\<in>set zs. f z < f b \<Longrightarrow> insort_key f b zs = zs @ [b]"
  by (induction zs) auto

lemma foldr_insort_sorted:
  "sorted (map f (xs @ ys)) \<Longrightarrow> foldr (insort_key f) xs ys = xs @ ys"
proof (induction xs)
  case Nil
  then show ?case by simp
next
  case (Cons a xs)
  then have "foldr (insort_key f) xs ys = xs @ ys" by simp
  moreover have "\<forall>x\<in>set (xs @ ys). f a \<le> f x" using Cons.prems by auto
  ultimately show ?case by (simp add: insort_is_Cons del: set_append)
qed

lemma sort_key_move_last:
  assumes "sorted (map f (xs @ zs @ [b]))" "\<forall>z\<in>set zs. f z < f b"
  shows "sort_key f (xs @ b # zs) = xs @ zs @ [b]"
proof -
  have "sorted (map f zs)" using assms(1) by (simp add: sorted_append)
  then have "sort_key f zs = zs" by (rule sort_key_id_if_sorted)
  then have "sort_key f (b # zs) = zs @ [b]"
    using insort_key_last [OF assms(2)] by simp
  then have "sort_key f (xs @ b # zs) = foldr (insort_key f) xs (zs @ [b])"
    by (simp add: sort_key_def)
  then show ?thesis using foldr_insort_sorted [OF assms(1)] by simp
qed

lemma late_tagged:
  "zip (map late_rand [0..<length (base_individual 92 10)]) (base_individual 92 10) =
     map (\<lambda>i. (real i / 1000, Suc i)) [0..<91] @ (1 / 2, 92) # replicate 9 (1 / 4, 0)"
  by code_simp

lemma late_sorted:
  "sorted (map fst (map (\<lambda>i. (real i / 1000, Suc i)) [0..<91] @ replicate 9 (1 / 4, 0::nat) @ [(1 / 2, 92::nat)]))"
proof -
  have "sorted (map (\<lambda>i. real i / 1000) [0..<91])"
    by (simp add: sorted_map sorted_wrt_map divide_right_mono sorted_wrt_iff_nth_less)
  then show ?thesis by (auto simp: sorted_append comp_def)
qed

lemma late_shuffle: "fst (shuffle (base_individual 92 10) late_rand) = late_stop"
proof -
  have "sort_key fst (map (\<lambda>i. (real i / 1000, Suc i)) [0..<91] @ (1 / 2, 92) # replicate 9 (1 / 4, 0::nat)) =
        map (\<lambda>i. (real i / 1000, Suc i)) [0..<91] @ replicate 9 (1 / 4, 0) @ [(1 / 2, 92)]"
    by (rule sort_key_move_last [OF late_sorted]) simp
  then have "fst (shuffle (base_individual 92 10) late_rand) =
      map snd (map (\<lambda>i. (real i / 1000, Suc i)) [0..<91] @ replicate 9 (1 / 4, 0) @ [(1 / 2, 92)])"
    by (simp only: shuffle_def Let_def fst_conv late_tagged)
  also have "\<dots> = late_stop"
    by (simp add: late_stop_def comp_def map_Suc_upt)
  finally show ?thesis .
qed

lemma late_rand_ok: "rand_ok late_rand"
  by (simp add: rand_ok_def late_rand_def)

lemma initPopulation_loop_extends:
  "\<exists>inds r'. initPopulation_loop base k pop r = (pop @ inds, r')"
proof (induction k arbitrary: pop r)
  case 0
  then show ?case by simp
next
  case (Suc k)
  obtain ind r1 where sh: "shuffle base r = (ind, r1)" by (cases "shuffle base r")
  from Suc [of "pop @ [ind]" r1] obtain inds r' where
    "initPopulation_loop base k (pop @ [ind]) r1 = ((pop @ [ind]) @ inds, r')" by blast
  then show ?case using sh by simp
qed

lemma first_individual:
  "\<exists>rest. population (fst (VRPSolver_new wh sts r)) = fst (shuffle (base_individual (length sts) 10) r) # rest"
proof -
  let ?base = "base_individual (length sts) 10"
  obtain ind r1 where sh: "shuffle ?base r = (ind, r1)" by (cases "shuffle ?base r")
  from initPopulation_loop_extends [of ?base 99 "[ind]" r1] obtain inds r' where
    "initPopulation_loop ?base 99 [ind] r1 = ([ind] @ inds, r')" by blast
  then have "initPopulation_loop ?base (Suc 99) [] r = (ind # inds, r')"
    using sh by (simp only: initPopulation_loop.simps prod.case append_Nil append_Cons)
  then show ?thesis using sh
    by (simp add: VRPSolver_new_def initPopulation_def base_individual_def Let_def)
qed

lemma decode_late_stop: "individualNum s = 100 \<Longrightarrow> decode s late_stop = [[1..<92]]"
proof -
  assume n: "individualNum s = 100"
  have "(case foldl (decode_step late_stop) ([], - 1) [0..<100] of
          (rts, warehouseIdx) \<Rightarrow>
            if warehouseIdx \<noteq> int 100 - 1 then
              (let route = slice_from late_stop (warehouseIdx + 1)
               in if length route > 0 then rts @ [route] else rts)
            else rts) = [[1..<92]]"
    by code_simp
  then show ?thesis by (simp only: decode_def n)
qed

subsection \<open>Geometry\<close>

lemma sin_half_toRadians_diff:
  "sin (toRadians (u - v) / 2) = - sin (toRadians (v - u) / 2)"
proof -
  have "toRadians (u - v) / 2 = - (toRadians (v - u) / 2)"
    by (simp add: toRadians_def field_simps)
  then show ?thesis by (simp only: sin_minus)
qed

lemma haversineDistance_sym: "haversineDistance a b = haversineDistance b a"
  unfolding haversineDistance_def Let_def
  by (simp add: sin_half_toRadians_diff [of "latitude b" "latitude a"]
      sin_half_toRadians_diff [of "longitude b" "longitude a"] mult.commute)

lemma haversineDistance_self: "haversineDistance a a = 0"
  by (simp add: haversineDistance_def Let_def toRadians_def atan2_def)

lemma getRouteDistance_loop_path_sum:
  "2 \<le> length fr \<Longrightarrow>
     getRouteDistance_loop cs fr d =
       (if \<forall>x\<in>set fr. x < length cs then Inr (d + path_sum cs fr) else Inl TypeError)"
proof (induction cs fr d rule: getRouteDistance_loop.induct)
  case (1 cs i j rest d)
  show ?case
  proof (cases rest)
    case Nil
    then show ?thesis by (auto simp: at_index_def)
  next
    case (Cons k rest')
    then have "2 \<le> length (j # rest)" by simp
    then show ?thesis using 1 by (auto simp: at_index_def)
  qed
qed simp_all

lemma path_sum_snoc:
  "xs \<noteq> [] \<Longrightarrow> path_sum cs (xs @ [y]) = path_sum cs xs + getDistanceBetweenCoords (cs ! last xs) (cs ! y)"
proof (induction cs xs rule: path_sum.induct)
  case (1 cs i j rest)
  then show ?case by simp
qed simp_all

lemma path_sum_rev: "path_sum cs (rev xs) = path_sum cs xs"
proof (induction cs xs rule: path_sum.induct)
  case (1 cs i j rest)
  have "path_sum cs (rev (i # j # rest)) = path_sum cs (rev (j # rest) @ [i])" by simp
  also have "\<dots> = path_sum cs (rev (j # rest)) + getDistanceBetweenCoords (cs ! last (rev (j # rest))) (cs ! i)"
    by (rule path_sum_snoc) simp
  also have "last (rev (j # rest)) = j" by simp
  finally show ?case using 1
    by (simp add: getDistanceBetweenCoords_def haversineDistance_sym [of "cs ! j"])
qed simp_all

lemma getRouteDistance_rev: "getRouteDistance s (rev route) = getRouteDistance s route"
proof -
  have "[0] @ rev route @ [0] = rev ([0] @ route @ [0])" by simp
  moreover have "2 \<le> length (rev ([0] @ route @ [0]))" "2 \<le> length ([0] @ route @ [0])" by simp_all
  ultimately show ?thesis
    unfolding getRouteDistance_def Let_def
    by (simp only: getRouteDistance_loop_path_sum path_sum_rev set_rev)
qed

subsection \<open>Fitness\<close>

lemma foldl_add_sum_list: "foldl (+) a xs = a + sum_list xs" for a :: real
  by (induction xs arbitrary: a) auto

lemma foldl_greater_Max:
  "foldl (\<lambda>a b. if a > b then a else b) x xs = Max (set (x # xs))" for x :: real
proof -
  have "(\<lambda>a b. if a > b then a else b) = (\<lambda>a b :: real. max b a)"
    by (auto simp: fun_eq_iff max_def)
  then have "foldl (\<lambda>a b. if a > b then a else b) x xs = fold max xs x"
    by (simp add: foldl_conv_fold)
  then show ?thesis by (simp only: Max.set_eq_fold)
qed

lemma max_radash_Max:
  "max_radash xs = (if xs = [] then None else Some (Max (set xs)))"
  by (cases xs) (simp_all add: max_radash_def foldl_greater_Max del: foldl_Cons set_simps)

lemma map_nth_upt_length:
  assumes "length rts = length ds"
  shows "map (\<lambda>idx. f (ds ! idx)) [0..<length rts] = map f ds"
proof -
  have "map f (map ((!) ds) [0..<length ds]) = map f ds" by (simp only: map_nth)
  then show ?thesis unfolding assms by (simp only: map_map comp_def)
qed

lemma evaluate_Inr:
  assumes "evaluate s rts = Inr res"
  shows "\<exists>ds. map (getRouteDistance s) rts = map Inr ds \<and>
           fit_routes res = rts \<and>
           fit_totalDistance res = sum_list ds \<and>
           fit_totalTime res = (if ds = [] then None else Some (Max (set (map getRouteTime ds)))) \<and>
           fitness res = - ((weightTime s * to_number (fit_totalTime res) +
                             weightDistance s * fit_totalDistance res) /
                            (weightTime s + weightDistance s))"
proof -
  from assms obtain ds where c: "collect (map (getRouteDistance s) rts) = Inr ds"
    by (auto simp: evaluate_def split: sum.splits)
  then have m: "map (getRouteDistance s) rts = map Inr ds" by (rule collect_Inr_D)
  then have "length rts = length ds" by (metis length_map)
  then have t: "map (\<lambda>idx. getRouteTime (ds ! idx)) [0..<length rts] = map getRouteTime ds"
    by (rule map_nth_upt_length)
  have "res = \<lparr>fitness = - ((weightTime s * to_number (max_radash (map getRouteTime ds)) +
                               weightDistance s * foldl (+) 0 ds) /
                              (weightTime s + weightDistance s)),
               fit_routes = rts, fit_totalDistance = foldl (+) 0 ds,
               fit_totalTime = max_radash (map getRouteTime ds)\<rparr>"
    using assms c t by (simp add: evaluate_def Let_def)
  then show ?thesis using m
    by (intro exI [of _ ds]) (simp add: foldl_add_sum_list max_radash_Max)
qed

subsection \<open>The result of a solve\<close>

lemma reproduce_mset:
  assumes "wf_solver s" "rand_ok r" "reproduce s r = Inr (s', r')" "ind \<in> set (population s')"
  shows "\<exists>src\<in>set (population s). mset ind = mset src"
proof -
  from mutation_ok [OF assms(1,2)] obtain ms r1 where
    mu: "mutation s r = Inr (ms, r1)" "\<forall>m\<in>set ms. \<exists>src\<in>set (population s). mset m = mset src"
    by blast
  let ?sel = "take (selectedNum s) (sort_key (rank_key (fitness_of s)) (population s))"
  have "population s' = ?sel @ ms"
    using assms(3) mu(1) select_ok [OF assms(1)] by (auto simp: reproduce_def)
  then have "ind \<in> set ?sel \<or> ind \<in> set ms" using assms(4) by simp
  then show ?thesis
  proof
    assume "ind \<in> set ?sel"
    then have "ind \<in> set (population s)"
      using set_take_subset [of "selectedNum s" "sort_key (rank_key (fitness_of s)) (population s)"]
      by auto
    then show ?thesis by blast
  next
    assume "ind \<in> set ms"
    then show ?thesis using mu(2) by blast
  qed
qed

lemma generations_mset:
  "wf_solver s \<Longrightarrow> rand_ok r \<Longrightarrow> generations n s r = Inr (s', r') \<Longrightarrow>
     ind \<in> set (population s') \<Longrightarrow> \<exists>src\<in>set (population s). mset ind = mset src"
proof (induction n arbitrary: s r)
  case 0
  then show ?case by auto
next
  case (Suc n)
  from reproduce_ok [OF Suc.prems(1,2)] obtain s1 r1 where
    st: "reproduce s r = Inr (s1, r1)" "wf_solver s1" "rand_ok r1" by blast
  then have "generations n s1 r1 = Inr (s', r')" using Suc.prems(3) by simp
  from Suc.IH [OF st(2,3) this Suc.prems(4)] obtain src1 where
    "src1 \<in> set (population s1)" "mset ind = mset src1" by blast
  then show ?case using reproduce_mset [OF Suc.prems(1,2) st(1)] by metis
qed

lemma map_Some_the: "None \<notin> set ps \<Longrightarrow> map Some (map the ps) = ps"
  by (induction ps) auto

lemma build_route_Inr:
  assumes "build_route show_num s route = Inr ro"
  shows "indices ro = [0] @ route @ [0] \<and> getRouteDistance s route = Inr (distance ro) \<and>
         driveTime ro = distance ro / DRIVE_SPEED \<and> time ro = getRouteTime (distance ro) \<and>
         map Some (paths ro) = map (\<lambda>idx. at_index (coords s) (int idx)) (indices ro) \<and>
         googleMapUrl ro = MAP_URL @
           join ''/'' (map (\<lambda>p. show_num (latitude p) @ '','' @ show_num (longitude p)) (paths ro))"
proof -
  let ?ps = "map (\<lambda>idx. at_index (coords s) (int idx)) ([0] @ route @ [0])"
  from assms obtain d where d: "getRouteDistance s route = Inr d"
    by (auto simp: build_route_def split: sum.splits)
  have n: "None \<notin> set ?ps"
    using assms d by (auto simp: build_route_def Let_def split: if_splits)
  have ro: "ro = \<lparr>paths = map the ?ps, indices = [0] @ route @ [0], time = getRouteTime d,
               driveTime = d / DRIVE_SPEED, distance = d,
               googleMapUrl = MAP_URL @ join ''/''
                 (map (\<lambda>p. show_num (latitude (the p)) @ '','' @ show_num (longitude (the p))) ?ps)\<rparr>"
    using assms d n by (simp add: build_route_def Let_def split: if_splits)
  have "map Some (paths ro) = ?ps" using ro map_Some_the [OF n] by simp
  moreover have "map (\<lambda>p. show_num (latitude p) @ '','' @ show_num (longitude p)) (map the ?ps) =
     map (\<lambda>p. show_num (latitude (the p)) @ '','' @ show_num (longitude (the p))) ?ps"
    by (simp only: map_map comp_def)
  ultimately show ?thesis using ro d by (simp add: comp_def)
qed

lemma build_route_ok:
  assumes "coords s \<noteq> []" "\<forall>x\<in>set route. x < length (coords s)"
  shows "\<exists>ro. build_route show_num s route = Inr ro"
proof -
  from getRouteDistance_ok [OF assms] obtain d where d: "getRouteDistance s route = Inr d" ..
  have "\<forall>x\<in>set ([0] @ route @ [0]). x < length (coords s)" using assms by auto
  then have "None \<notin> set (map (\<lambda>idx. at_index (coords s) (int idx)) ([0] @ route @ [0]))"
    by (auto simp: at_index_def)
  then show ?thesis using d by (simp add: build_route_def Let_def)
qed

lemma solve_ok:
  assumes "wf_solver s" "rand_ok r" "0 < individualNum s"
  shows "\<exists>s' r' best rest res rs.
     generations (iterNum s) s r = Inr (s', r') \<and> wf_solver s' \<and> rand_ok r' \<and>
     s' = s\<lparr>population := population s'\<rparr> \<and>
     sort_radash (population s') (fitness_of s') True = Inr (best # rest) \<and>
     best \<in> set (population s') \<and>
     getFitness s' best = Inr res \<and>
     collect (map (build_route show_num s') (fit_routes res)) = Inr rs \<and>
     solve show_num s r =
       Inr (\<lparr>routes = rs, totalDistance = fit_totalDistance res, totalTime = fit_totalTime res\<rparr>, s', r')"
proof -
  from generations_ok [OF assms(1,2), of "iterNum s"] obtain s' r' where
    g: "generations (iterNum s) s r = Inr (s', r')" "wf_solver s'" "rand_ok r'"
       "s' = s\<lparr>population := population s'\<rparr>" by blast
  have "individualNum s' = individualNum s" by (subst g(4)) simp
  then have ne: "population s' \<noteq> []" using g(2) assms(3) by (auto simp: wf_solver_def)
  let ?rk = "sort_key (rank_key (fitness_of s')) (population s')"
  have ok: "\<forall>x\<in>set (population s'). \<exists>v. fitness_of s' x = Inr v"
    using g(2) fitness_of_ok by (auto simp: wf_solver_def)
  have srt: "sort_radash (population s') (fitness_of s') True = Inr ?rk"
    by (rule sort_radash_desc' [OF ok])
  have "?rk \<noteq> []" using ne by (metis length_sort length_0_conv)
  then obtain best rest where rk: "?rk = best # rest" by (cases ?rk) auto
  then have b: "best \<in> set (population s')" by (metis list.set_intros(1) set_sort)
  then have v: "valid_individual s' best" "coords s' \<noteq> []" using g(2) by (auto simp: wf_solver_def)
  from getFitness_ok [OF v(2,1)] obtain res where res: "getFitness s' best = Inr res" ..
  then have "fit_routes res = decode s' best"
    using evaluate_Inr [of s' "decode s' best" res] by (auto simp: getFitness_def)
  then have "\<forall>rt\<in>set (fit_routes res). \<forall>x\<in>set rt. x < length (coords s')"
    using decode_subset [of _ s' best] v(1) by (auto simp: valid_individual_def)
  then have "\<forall>rt\<in>set (fit_routes res). \<exists>ro. build_route show_num s' rt = Inr ro"
    using build_route_ok [OF v(2)] by blast
  from collect_map_ok [OF this] obtain rs where
    rs: "collect (map (build_route show_num s') (fit_routes res)) = Inr rs" ..
  have "solve show_num s r =
       Inr (\<lparr>routes = rs, totalDistance = fit_totalDistance res, totalTime = fit_totalTime res\<rparr>, s', r')"
    using g(1) srt rk res rs by (simp add: solve_def)
  then show ?thesis using g srt rk b res rs by metis
qed

lemma concat_Nil_no_empty: "concat xss = [] \<Longrightarrow> [] \<notin> set xss \<Longrightarrow> xss = []"
  by (cases xss) auto

lemma concat_single_no_empty: "concat xss = [a] \<Longrightarrow> [] \<notin> set xss \<Longrightarrow> xss = [[a]]"
proof (cases xss)
  case Nil
  assume "concat xss = [a]"
  then show ?thesis using Nil by simp
next
  case (Cons xs rest)
  assume c: "concat xss = [a]" and n: "[] \<notin> set xss"
  then have "xs \<noteq> []" using Cons by auto
  then have "xs = [a]" "concat rest = []" using c Cons by (auto simp: append_eq_Cons_conv)
  moreover have "[] \<notin> set rest" using n Cons by simp
  ultimately show ?thesis using Cons concat_Nil_no_empty by blast
qed

lemma base_individual_0: "base_individual 0 10 = replicate 10 0"
  by code_simp

lemma base_individual_1: "base_individual 1 10 = 1 # replicate 9 0"
  by code_simp

lemma final_individual:
  assumes "rand_ok r" "VRPSolver_new wh sts r = (s0, r0)"
    and "generations g (setWeights wt wd s0) r0 = Inr (s', r')" "ind \<in> set (population s')"
  shows "mset ind = mset (base_individual (length sts) 10)"
proof -
  from VRPSolver_new_ok [OF assms(1), of wh sts] assms(2) have
    p: "\<forall>ind\<in>set (population s0). mset ind = mset (base_individual (length sts) 10)"
    by auto
  from VRPSolver_new_wf [OF assms(1), of wh sts] assms(2) have
    "wf_solver (setWeights wt wd s0)" "rand_ok r0" by (simp_all add: wf_setWeights)
  from generations_mset [OF this assms(3,4)] obtain src where
    "src \<in> set (population (setWeights wt wd s0))" "mset ind = mset src" by blast
  then show ?thesis using p by (simp add: setWeights_def)
qed

lemma start_solver:
  assumes "rand_ok r" "VRPSolver_new wh sts r = (s0, r0)"
  shows "wf_solver (setWeights wt wd s0) \<and> rand_ok r0 \<and> 0 < individualNum (setWeights wt wd s0) \<and>
    iterNum (setWeights wt wd s0) = 200"
  using VRPSolver_new_wf [OF assms(1), of wh sts] assms(2) new_fields [OF assms(2)]
  by (simp add: wf_setWeights) (simp add: setWeights_def)


lemma zero_rand_ok: "rand_ok zero_rand"
  by (simp add: rand_ok_def zero_rand_def)


lemma collect_map_nth:
  assumes "collect (map f xs) = Inr ys"
  shows "length ys = length xs \<and> (\<forall>i<length xs. f (xs ! i) = Inr (ys ! i))"
proof -
  from collect_Inr_D [OF assms] have m: "map f xs = map Inr ys" .
  then have l: "length ys = length xs" by (metis length_map)
  have "\<forall>i<length xs. f (xs ! i) = Inr (ys ! i)"
  proof (intro allI impI)
    fix i assume i: "i < length xs"
    then have "f (xs ! i) = map f xs ! i" by simp
    also have "\<dots> = map Inr ys ! i" by (simp only: m)
    also have "\<dots> = Inr (ys ! i)" using i l by simp
    finally show "f (xs ! i) = Inr (ys ! i)" .
  qed
  with l show ?thesis by blast
qed

lemma paths_resolved:
  assumes "map Some ps = map (\<lambda>idx. at_index cs (int idx)) idxs"
  shows "ps = map (\<lambda>idx. cs ! idx) idxs \<and> (\<forall>idx\<in>set idxs. idx < length cs)"
  using assms
proof (induction idxs arbitrary: ps)
  case Nil
  then show ?case by simp
next
  case (Cons i idxs)
  then obtain p ps' where ps: "ps = p # ps'" by (cases ps) auto
  then have "Some p = at_index cs (int i)" "map Some ps' = map (\<lambda>idx. at_index cs (int idx)) idxs"
    using Cons.prems by simp_all
  moreover from this(1) have "i < length cs \<and> p = cs ! i"
    by (auto simp: at_index_def split: if_splits)
  ultimately show ?case using Cons.IH [of ps'] ps by simp
qed

lemma built_route:
  assumes "build_route show_num s route = Inr ro"
  shows "indices ro = [0] @ route @ [0] \<and> getRouteDistance s route = Inr (distance ro) \<and>
         paths ro = map (\<lambda>idx. coords s ! idx) (indices ro) \<and>
         (\<forall>idx\<in>set (indices ro). idx < length (coords s)) \<and>
         hd (paths ro) = coords s ! 0 \<and> last (paths ro) = coords s ! 0 \<and>
         driveTime ro = distance ro / 50 \<and> time ro = getRouteTime (distance ro) \<and>
         googleMapUrl ro = ''https://www.google.com/maps/dir/'' @
           join ''/'' (map (\<lambda>p. show_num (latitude p) @ '','' @ show_num (longitude p)) (paths ro))"
proof -
  note b = build_route_Inr [OF assms]
  from b have i: "indices ro = [0] @ route @ [0]" by blast
  from b have "map Some (paths ro) = map (\<lambda>idx. at_index (coords s) (int idx)) (indices ro)" by blast
  from paths_resolved [OF this] have
    p: "paths ro = map (\<lambda>idx. coords s ! idx) (indices ro)" "\<forall>idx\<in>set (indices ro). idx < length (coords s)"
    by blast+
  have "hd (paths ro) = coords s ! 0" "last (paths ro) = coords s ! 0"
    unfolding p(1) i by simp_all
  then show ?thesis using b p by (simp add: DRIVE_SPEED_def MAP_URL_def)
qed

lemma solve_Inr:
  assumes "rand_ok r" "VRPSolver_new wh sts r = (s0, r0)"
    and "solve show_num (setWeights wt wd s0) r0 = Inr (out, s', r')"
  shows "\<exists>best rest res.
     generations 200 (setWeights wt wd s0) r0 = Inr (s', r') \<and>
     coords s' = wh # sts \<and> individualNum s' = 100 \<and>
     sort_radash (population s') (fitness_of s') True = Inr (best # rest) \<and>
     best \<in> set (population s') \<and> mset best = mset (base_individual (length sts) 10) \<and>
     getFitness s' best = Inr res \<and> fit_routes res = decode s' best \<and>
     collect (map (build_route show_num s') (fit_routes res)) = Inr (routes out) \<and>
     totalDistance out = fit_totalDistance res \<and> totalTime out = fit_totalTime res"
proof -
  let ?s = "setWeights wt wd s0"
  from start_solver [OF assms(1,2), of wt wd] have
    st: "wf_solver ?s" "rand_ok r0" "0 < individualNum ?s" "iterNum ?s = 200" by simp_all
  from solve_ok [OF st(1,2,3), of show_num] obtain s1 r1 best rest res rs where
    so: "generations (iterNum ?s) ?s r0 = Inr (s1, r1)" "s1 = ?s\<lparr>population := population s1\<rparr>"
        "sort_radash (population s1) (fitness_of s1) True = Inr (best # rest)"
        "best \<in> set (population s1)" "getFitness s1 best = Inr res"
        "collect (map (build_route show_num s1) (fit_routes res)) = Inr rs"
        "solve show_num ?s r0 =
           Inr (\<lparr>routes = rs, totalDistance = fit_totalDistance res, totalTime = fit_totalTime res\<rparr>, s1, r1)"
    by blast
  from so(7) assms(3) have eq: "s1 = s'" "r1 = r'"
    "out = \<lparr>routes = rs, totalDistance = fit_totalDistance res, totalTime = fit_totalTime res\<rparr>"
    by simp_all
  have f: "coords s1 = wh # sts" "individualNum s1 = 100"
    using reachable_fields [OF assms(2) so(2)] by simp_all
  have m: "mset best = mset (base_individual (length sts) 10)"
    by (rule final_individual [OF assms(1,2) so(1) so(4)])
  have fr: "fit_routes res = decode s1 best"
    using so(5) evaluate_Inr [of s1 "decode s1 best" res] by (auto simp: getFitness_def)
  show ?thesis
    using so(1,3,4,5,6) st(4) f m fr unfolding eq by (intro exI [of _ best] exI [of _ rest] exI [of _ res]) simp
qed


lemma one_stop_decode:
  assumes "mset best = mset (base_individual 1 10)" "individualNum s = 100"
  shows "decode s best = [[1]]"
proof -
  have m: "mset best = mset (1 # replicate 9 0)" using assms(1) by (simp only: base_individual_1)
  then have "size (mset best) = size (mset (1 # replicate 9 (0::nat)))" by (simp only:)
  then have "length best = 10" by simp
  then have d: "decode s best = split_runs [] best" using assms(2) by (simp add: decode_split)
  have "mset (filter (\<lambda>x. x \<noteq> 0) best) = filter_mset (\<lambda>x. x \<noteq> 0) (mset (1 # replicate 9 0))"
    by (simp only: mset_filter m)
  also have "\<dots> = {#1#}" by simp
  finally have "mset (filter (\<lambda>x. x \<noteq> 0) best) = {#1#}" .
  then have "filter (\<lambda>x. x \<noteq> 0) best = [1]" by (simp only: mset_single_iff)
  then have "concat (split_runs [] best) = [1]" by (simp add: split_runs_concat)
  then show ?thesis using d concat_single_no_empty split_runs_nonempty by metis
qed

lemma one_stop_solve:
  assumes "rand_ok r" "VRPSolver_new origin [origin] r = (s0, r0)"
  shows "\<exists>out s' r' ro. solve show_num (setWeights wt wd s0) r0 = Inr (out, s', r') \<and>
           routes out = [ro] \<and> indices ro = [0, 1, 0] \<and> distance ro = 0"
proof -
  let ?s = "setWeights wt wd s0"
  from start_solver [OF assms, of wt wd] have
    st: "wf_solver ?s" "rand_ok r0" "0 < individualNum ?s" by simp_all
  from solve_ok [OF st, of show_num] obtain out s' r' where
    s: "solve show_num ?s r0 = Inr (out, s', r')" by blast
  from solve_Inr [OF assms s] obtain best res where
    so: "coords s' = [origin, origin]" "individualNum s' = 100"
        "mset best = mset (base_individual 1 10)" "getFitness s' best = Inr res"
        "fit_routes res = decode s' best"
        "collect (map (build_route show_num s') (fit_routes res)) = Inr (routes out)"
    by auto
  have d: "fit_routes res = [[1]]" using so(5) one_stop_decode [OF so(3,2)] by simp
  from collect_map_nth [OF so(6)] d have
    n: "length (routes out) = 1" "build_route show_num s' [1] = Inr (routes out ! 0)" by simp_all
  then obtain ro where ro: "routes out = [ro]" by (cases "routes out") auto
  then have "build_route show_num s' [1] = Inr ro" using n(2) by simp
  from built_route [OF this] have
    "indices ro = [0, 1, 0]" "getRouteDistance s' [1] = Inr (distance ro)" by simp_all
  moreover have "getRouteDistance s' [1] = Inr 0"
    by (simp add: getRouteDistance_def so(1) at_index_def getDistanceBetweenCoords_def
        haversineDistance_self)
  ultimately show ?thesis using s ro by auto
qed


subsection \<open>An empty stop list\<close>

lemma solve_empty:
  assumes "rand_ok r" and "VRPSolver_new wh [] r = (s0, r0)"
  shows "\<exists>s' r'. solve show_num (setWeights wt wd s0) r0 =
           Inr (\<lparr>routes = [], totalDistance = 0, totalTime = None\<rparr>, s', r')"
proof -
  let ?s = "setWeights wt wd s0"
  from start_solver [OF assms, of wt wd] have
    st: "wf_solver ?s" "rand_ok r0" "0 < individualNum ?s" "iterNum ?s = 200" by simp_all
  from solve_ok [OF st(1,2,3), of show_num] obtain s' r' best rest res rs where
    so: "generations (iterNum ?s) ?s r0 = Inr (s', r')" "s' = ?s\<lparr>population := population s'\<rparr>"
        "best \<in> set (population s')" "getFitness s' best = Inr res"
        "collect (map (build_route show_num s') (fit_routes res)) = Inr rs"
        "solve show_num ?s r0 =
           Inr (\<lparr>routes = rs, totalDistance = fit_totalDistance res, totalTime = fit_totalTime res\<rparr>, s', r')"
    by blast
  have f: "individualNum s' = 100" using reachable_fields [OF assms(2) so(2)] by simp
  have m: "mset best = mset (replicate 10 0)"
    using final_individual [OF assms so(1) so(3)] by (simp add: base_individual_0)
  then have "length best = 10" by (metis size_mset length_replicate)
  then have d: "decode s' best = split_runs [] best" using f by (simp add: decode_split)
  have "set best \<subseteq> {0}" using m by (metis set_mset_mset set_replicate_conv_if empty_subsetI subset_refl)
  then have "filter (\<lambda>x. x \<noteq> 0) best = []" by (auto simp: filter_empty_conv)
  then have "concat (split_runs [] best) = []" by (simp add: split_runs_concat)
  then have "decode s' best = []" using d concat_Nil_no_empty split_runs_nonempty by metis
  then have e: "evaluate s' [] = Inr res" using so(4) by (simp add: getFitness_def)
  from evaluate_Inr [OF e] have
    "fit_routes res = []" "fit_totalDistance res = 0" "fit_totalTime res = None"
    by auto
  then show ?thesis using so(5,6) by auto
qed

text \<open>
  C4, at the empty stop list. Every individual is ten markers (the helper
  \<open>range(1, 0)\<close> yields one 0, then nine markers follow), no route is decoded, and
  \<open>solve\<close> returns without an exception a plan with no route and total distance 0.
  Its total time is \<open>null\<close>, the value of \<open>max\<close> on the empty list of route times,
  where the source asserts a number (\<open>max(...)!\<close>) and the type of the plan declares
  one; it is not the number 0.
\<close>

theorem solve_empty_stops:
  assumes "rand_ok r" and "VRPSolver_new wh [] r = (s0, r0)"
  shows "\<exists>out s' r'. solve show_num (setWeights wt wd s0) r0 = Inr (out, s', r') \<and>
           routes out = [] \<and> totalDistance out = 0 \<and> totalTime out = None \<and>
           totalTime out \<noteq> Some 0"
proof -
  from solve_empty [OF assms, of show_num wt wd] obtain s' r' where
    "solve show_num (setWeights wt wd s0) r0 =
       Inr (\<lparr>routes = [], totalDistance = 0, totalTime = None\<rparr>, s', r')" by blast
  then show ?thesis by simp
qed

theorem solve_empty_stops_witness:
  "rand_ok (\<lambda>i. 0) \<and>
   (\<exists>s0 r0 s' r'. VRPSolver_new origin [] (\<lambda>i. 0) = (s0, r0) \<and>
      solve (\<lambda>x. ''0'') (setWeights 1 1 s0) r0 =
        Inr (\<lparr>routes = [], totalDistance = 0, totalTime = None\<rparr>, s', r'))"
proof -
  have r: "rand_ok (\<lambda>i. 0)" by (simp add: rand_ok_def)
  obtain s0 r0 where n: "VRPSolver_new origin [] (\<lambda>i. 0) = (s0, r0)"
    by (cases "VRPSolver_new origin [] (\<lambda>i. 0)")
  from solve_empty_stops [OF r n, of "\<lambda>x. ''0''" 1 1] obtain out s' r' where
    "solve (\<lambda>x. ''0'') (setWeights 1 1 s0) r0 = Inr (out, s', r')"
    "routes out = []" "totalDistance out = 0" "totalTime out = None" by blast
  then have "solve (\<lambda>x. ''0'') (setWeights 1 1 s0) r0 =
        Inr (\<lparr>routes = [], totalDistance = 0, totalTime = None\<rparr>, s', r')"
    by simp
  with r n show ?thesis by blast
qed

subsection \<open>The routes of the plan\<close>

text \<open>
  C6. Every route of the plan that \<open>solve\<close> returns comes from one decoded route of
  the best individual of the final ranking, in the same order: its indices are the
  decoded route with the depot index 0 in front and at the end; its path is the
  coordinates of these indices in the coordinate table, so it begins and ends at the
  warehouse; its distance is the closed-loop distance of the route, its drive time is
  that distance divided by 50, its time is \<open>getRouteTime\<close> of the distance; and its
  URL is the fixed base followed by the pairs latitude, comma, longitude of the path, in
  order, separated by \<open>/\<close>.
\<close>

theorem solve_routes:
  assumes "rand_ok r" and "VRPSolver_new wh sts r = (s0, r0)"
    and "solve show_num (setWeights wt wd s0) r0 = Inr (out, s', r')"
  shows "\<exists>best rest.
     sort_radash (population s') (fitness_of s') True = Inr (best # rest) \<and>
     map indices (routes out) = map (\<lambda>route. [0] @ route @ [0]) (decode s' best) \<and>
     (\<forall>ro\<in>set (routes out).
        paths ro = map (\<lambda>idx. (wh # sts) ! idx) (indices ro) \<and>
        (\<forall>idx\<in>set (indices ro). idx \<le> length sts) \<and>
        hd (paths ro) = wh \<and> last (paths ro) = wh \<and>
        (\<exists>route\<in>set (decode s' best).
           indices ro = [0] @ route @ [0] \<and> getRouteDistance s' route = Inr (distance ro)) \<and>
        driveTime ro = distance ro / 50 \<and> time ro = getRouteTime (distance ro) \<and>
        googleMapUrl ro = ''https://www.google.com/maps/dir/'' @
          join ''/'' (map (\<lambda>p. show_num (latitude p) @ '','' @ show_num (longitude p)) (paths ro)))"
proof -
  from solve_Inr [OF assms] obtain best rest res where
    so: "coords s' = wh # sts"
        "sort_radash (population s') (fitness_of s') True = Inr (best # rest)"
        "fit_routes res = decode s' best"
        "collect (map (build_route show_num s') (fit_routes res)) = Inr (routes out)"
        "getFitness s' best = Inr res"
    by blast
  let ?rts = "decode s' best"
  from collect_map_nth [OF so(4)] so(3) have
    n: "length (routes out) = length ?rts"
       "\<forall>i<length ?rts. build_route show_num s' (?rts ! i) = Inr (routes out ! i)"
    by simp_all
  have a: "map indices (routes out) = map (\<lambda>route. [0] @ route @ [0]) ?rts"
  proof (rule nth_equalityI)
    show "length (map indices (routes out)) = length (map (\<lambda>route. [0] @ route @ [0]) ?rts)"
      using n(1) by simp
  next
    fix i assume "i < length (map indices (routes out))"
    then have i: "i < length ?rts" using n(1) by simp
    then have "build_route show_num s' (?rts ! i) = Inr (routes out ! i)" using n(2) by blast
    from built_route [OF this] have "indices (routes out ! i) = [0] @ (?rts ! i) @ [0]" by blast
    then show "map indices (routes out) ! i = map (\<lambda>route. [0] @ route @ [0]) ?rts ! i"
      using i n(1) by simp
  qed
  have b: "\<forall>ro\<in>set (routes out).
        paths ro = map (\<lambda>idx. (wh # sts) ! idx) (indices ro) \<and>
        (\<forall>idx\<in>set (indices ro). idx \<le> length sts) \<and>
        hd (paths ro) = wh \<and> last (paths ro) = wh \<and>
        (\<exists>route\<in>set ?rts.
           indices ro = [0] @ route @ [0] \<and> getRouteDistance s' route = Inr (distance ro)) \<and>
        driveTime ro = distance ro / 50 \<and> time ro = getRouteTime (distance ro) \<and>
        googleMapUrl ro = ''https://www.google.com/maps/dir/'' @
          join ''/'' (map (\<lambda>p. show_num (latitude p) @ '','' @ show_num (longitude p)) (paths ro))"
  proof
    fix ro assume "ro \<in> set (routes out)"
    then obtain i where i: "i < length ?rts" "ro = routes out ! i"
      using n(1) by (metis in_set_conv_nth)
    then have br: "build_route show_num s' (?rts ! i) = Inr ro" using n(2) by simp
    note bt = built_route [OF br, unfolded so(1)]
    from bt have p1: "paths ro = map (\<lambda>idx. (wh # sts) ! idx) (indices ro)" by blast
    from bt have "\<forall>idx\<in>set (indices ro). idx < length (wh # sts)" by blast
    then have p2: "\<forall>idx\<in>set (indices ro). idx \<le> length sts" by (simp add: less_Suc_eq_le)
    from bt have "hd (paths ro) = (wh # sts) ! 0" "last (paths ro) = (wh # sts) ! 0" by blast+
    then have p3: "hd (paths ro) = wh" "last (paths ro) = wh" by simp_all
    from bt have "indices ro = [0] @ (?rts ! i) @ [0]"
      "getRouteDistance s' (?rts ! i) = Inr (distance ro)" by blast+
    moreover have "?rts ! i \<in> set ?rts" using i(1) by simp
    ultimately have p4: "\<exists>route\<in>set ?rts.
           indices ro = [0] @ route @ [0] \<and> getRouteDistance s' route = Inr (distance ro)"
      by blast
    from bt have p5: "driveTime ro = distance ro / 50" "time ro = getRouteTime (distance ro)"
      "googleMapUrl ro = ''https://www.google.com/maps/dir/'' @
          join ''/'' (map (\<lambda>p. show_num (latitude p) @ '','' @ show_num (longitude p)) (paths ro))"
      by blast+
    show "paths ro = map (\<lambda>idx. (wh # sts) ! idx) (indices ro) \<and>
        (\<forall>idx\<in>set (indices ro). idx \<le> length sts) \<and>
        hd (paths ro) = wh \<and> last (paths ro) = wh \<and>
        (\<exists>route\<in>set ?rts.
           indices ro = [0] @ route @ [0] \<and> getRouteDistance s' route = Inr (distance ro)) \<and>
        driveTime ro = distance ro / 50 \<and> time ro = getRouteTime (distance ro) \<and>
        googleMapUrl ro = ''https://www.google.com/maps/dir/'' @
          join ''/'' (map (\<lambda>p. show_num (latitude p) @ '','' @ show_num (longitude p)) (paths ro))"
      using p1 p2 p3 p4 p5 by (intro conjI)
  qed
  from so(2) a b show ?thesis by blast
qed


theorem solve_routes_witness:
  "rand_ok zero_rand \<and>
   (\<exists>s0 r0 out s' r'. VRPSolver_new origin [origin] zero_rand = (s0, r0) \<and>
      solve show_zero (setWeights 100 1 s0) r0 = Inr (out, s', r') \<and>
      map indices (routes out) = [[0, 1, 0]] \<and>
      (\<forall>ro\<in>set (routes out).
         paths ro = [origin, origin, origin] \<and> hd (paths ro) = origin \<and> last (paths ro) = origin \<and>
         driveTime ro = distance ro / 50 \<and> time ro = getRouteTime (distance ro) \<and>
         googleMapUrl ro = ''https://www.google.com/maps/dir/0,0/0,0/0,0''))"
proof -
  obtain s0 r0 where n: "VRPSolver_new origin [origin] zero_rand = (s0, r0)"
    by (cases "VRPSolver_new origin [origin] zero_rand")
  from one_stop_solve [OF zero_rand_ok n, of show_zero 100 1] obtain out s' r' ro where
    s: "solve show_zero (setWeights 100 1 s0) r0 = Inr (out, s', r')"
       "routes out = [ro]" "indices ro = [0, 1, 0]" by blast
  from solve_routes [OF zero_rand_ok n s(1)] have
    "paths ro = map (\<lambda>idx. [origin, origin] ! idx) (indices ro) \<and>
     hd (paths ro) = origin \<and> last (paths ro) = origin \<and>
     driveTime ro = distance ro / 50 \<and> time ro = getRouteTime (distance ro) \<and>
     googleMapUrl ro = ''https://www.google.com/maps/dir/'' @
       join ''/'' (map (\<lambda>p. show_zero (latitude p) @ '','' @ show_zero (longitude p)) (paths ro))"
    using s(2) by auto
  then have "paths ro = [origin, origin, origin] \<and> hd (paths ro) = origin \<and> last (paths ro) = origin \<and>
         driveTime ro = distance ro / 50 \<and> time ro = getRouteTime (distance ro) \<and>
         googleMapUrl ro = ''https://www.google.com/maps/dir/0,0/0,0/0,0''"
    using s(3) by (simp add: show_zero_def)
  then show ?thesis using zero_rand_ok n s by auto
qed


subsection \<open>The totals of the plan\<close>



subsection \<open>The arguments of the square roots\<close>

text \<open>
  In \<open>haversineDistance\<close> both square roots are taken of numbers that are not
  negative, for all coordinates; so no \<open>NaN\<close> arises there in exact arithmetic.
\<close>

lemma abs_mult_le_half_squares: "\<bar>x * y\<bar> \<le> (x\<^sup>2 + y\<^sup>2) / 2" for x y :: real
proof -
  have "2 * x * y \<le> x\<^sup>2 + y\<^sup>2" by (rule sum_squares_bound)
  moreover have "2 * (- x) * y \<le> (- x)\<^sup>2 + y\<^sup>2" by (rule sum_squares_bound)
  ultimately show ?thesis by (simp add: abs_le_iff)
qed

lemma half_sums_one:
  "w + x = 1 \<Longrightarrow> y + z = 1 \<Longrightarrow> (y + w) / 2 + (x + z) / 2 = 1" for w x y z :: real
  by (simp add: field_simps)

lemma haversine_argument:
  fixes p q l :: real
  defines "a \<equiv> sin ((q - p) / 2) * sin ((q - p) / 2) + cos p * cos q * sin (l / 2) * sin (l / 2)"
  shows "0 \<le> a \<and> a \<le> 1"
proof -
  define S where "S = (sin (l / 2))\<^sup>2"
  define u where "u = 1 - 2 * S"
  have S: "0 \<le> S" "S \<le> 1" unfolding S_def by (simp_all add: abs_square_le_1)
  then have u: "\<bar>u\<bar> \<le> 1" unfolding u_def by (simp add: abs_le_iff)
  have "2 * ((q - p) / 2) = q - p" by simp
  then have "cos (q - p) = 1 - 2 * (sin ((q - p) / 2))\<^sup>2"
    using cos_double_sin [of "(q - p) / 2"] by (simp only:)
  then have h: "(sin ((q - p) / 2))\<^sup>2 = (1 - (cos q * cos p + sin q * sin p)) / 2"
    by (simp add: cos_diff)
  have a2: "2 * a = 1 - (sin q * sin p + (cos p * cos q) * u)"
    unfolding a_def u_def S_def using h by (simp add: power2_eq_square algebra_simps)
  have "\<bar>(cos p * cos q) * u\<bar> \<le> \<bar>cos p * cos q\<bar>"
    using u by (simp add: abs_mult mult_left_le)
  also have "\<dots> \<le> ((cos p)\<^sup>2 + (cos q)\<^sup>2) / 2"
    by (rule abs_mult_le_half_squares)
  finally have c: "\<bar>(cos p * cos q) * u\<bar> \<le> ((cos p)\<^sup>2 + (cos q)\<^sup>2) / 2" .
  have s: "\<bar>sin q * sin p\<bar> \<le> ((sin q)\<^sup>2 + (sin p)\<^sup>2) / 2"
    by (rule abs_mult_le_half_squares)
  have "\<bar>sin q * sin p + (cos p * cos q) * u\<bar> \<le> \<bar>sin q * sin p\<bar> + \<bar>(cos p * cos q) * u\<bar>"
    by (rule abs_triangle_ineq)
  also have "\<dots> \<le> ((sin q)\<^sup>2 + (sin p)\<^sup>2) / 2 + ((cos p)\<^sup>2 + (cos q)\<^sup>2) / 2"
    by (rule add_mono [OF s c])
  also have "\<dots> = 1"
  proof -
    show ?thesis by (rule half_sums_one) simp_all
  qed
  finally have "\<bar>sin q * sin p + (cos p * cos q) * u\<bar> \<le> 1" .
  then show ?thesis using a2 by (simp add: abs_le_iff)
qed

lemma haversine_sqrt_arguments:
  "let lat1Rad = toRadians (latitude coord1); lat2Rad = toRadians (latitude coord2);
       deltaLatRad = toRadians (latitude coord2 - latitude coord1);
       deltaLonRad = toRadians (longitude coord2 - longitude coord1);
       a = sin (deltaLatRad / 2) * sin (deltaLatRad / 2) +
           cos lat1Rad * cos lat2Rad * sin (deltaLonRad / 2) * sin (deltaLonRad / 2)
   in 0 \<le> a \<and> 0 \<le> 1 - a"
proof -
  have "toRadians (latitude coord2 - latitude coord1) =
        toRadians (latitude coord2) - toRadians (latitude coord1)"
    by (simp add: toRadians_def field_simps)
  then show ?thesis
    using haversine_argument [of "toRadians (latitude coord2)" "toRadians (latitude coord1)"
        "toRadians (longitude coord2 - longitude coord1)"]
    by (simp add: Let_def)
qed

lemma haversineDistance_nonneg: "0 \<le> haversineDistance coord1 coord2"
proof -
  have "0 \<le> atan2 y x" if "0 \<le> y" "0 \<le> x" for x y :: real
    using that by (auto simp: atan2_def zero_le_arctan_iff)
  then show ?thesis
    using haversine_sqrt_arguments [of coord1 coord2]
    by (simp add: haversineDistance_def Let_def)
qed

subsection \<open>Coverage of the decoding\<close>

text \<open>
  While an individual is not longer than \<open>individualNum\<close>, that is for 1 to 91
  stops, \<open>getFitness\<close> decodes it as the specification says: it splits on every
  marker, drops the empty runs, and the routes hold every stop exactly once.
\<close>

lemma map_nat_upto: "map nat [1..int n] = [1..<Suc n]"
proof (induction n)
  case 0
  then show ?case by simp
next
  case (Suc n)
  have "[1..int (Suc n)] = [1..int n] @ [int n + 1]"
    using upto_rec2 [of 1 "int n + 1"] by (simp add: add.commute)
  then show ?case using Suc by simp
qed

lemma base_individual_stops:
  assumes "0 < n"
  shows "filter (\<lambda>x. x \<noteq> 0) (base_individual n d) = [1..<Suc n]"
proof -
  have a: "range_radash 1 (int n) nat = [1..<Suc n]"
    using assms by (simp add: range_radash_def map_nat_upto)
  have b: "filter (\<lambda>x. x \<noteq> 0) (range_radash 1 (int d - 1) (\<lambda>i. 0::nat)) = []"
    by (simp add: range_radash_def Let_def filter_empty_conv)
  have "filter (\<lambda>x. x \<noteq> 0) [1..<Suc n] = [1..<Suc n]"
    by (rule filter_True) auto
  then show ?thesis
    unfolding base_individual_def a by (simp only: filter_append b append_Nil2)
qed

lemma decode_covers:
  assumes "mset ind = mset (base_individual n d)" "0 < n" "length ind \<le> individualNum s"
  shows "decode s ind = split_runs [] ind \<and>
         mset (concat (decode s ind)) = mset [1..<Suc n] \<and>
         [] \<notin> set (decode s ind) \<and> (\<forall>rt\<in>set (decode s ind). 0 \<notin> set rt)"
proof -
  have d: "decode s ind = split_runs [] ind" by (rule decode_split [OF assms(3)])
  have "mset (filter (\<lambda>x. x \<noteq> 0) ind) = mset (filter (\<lambda>x. x \<noteq> 0) (base_individual n d))"
    by (simp only: mset_filter assms(1))
  then have "mset (concat (decode s ind)) = mset [1..<Suc n]"
    by (simp only: d split_runs_concat base_individual_stops [OF assms(2)] append_Nil)
  moreover have "\<forall>rt\<in>set (decode s ind). 0 \<notin> set rt"
    unfolding d using split_runs_no_zero [of "[]" _ ind] by auto
  ultimately show ?thesis using d split_runs_nonempty [of "[]" ind] by simp
qed

lemma length_base_individual: "0 < n \<Longrightarrow> length (base_individual n 10) = n + 9"
  by (simp add: base_individual_def range_radash_def Let_def)

lemma coverage_small:
  assumes "rand_ok r" "VRPSolver_new wh sts r = (s0, r0)"
    and "generations g (setWeights wt wd s0) r0 = Inr (s', r')" "ind \<in> set (population s')"
    and "0 < length sts" "length sts \<le> 91"
  shows "decode s' ind = split_runs [] ind \<and>
         mset (concat (decode s' ind)) = mset [1..<Suc (length sts)] \<and>
         [] \<notin> set (decode s' ind) \<and> (\<forall>rt\<in>set (decode s' ind). 0 \<notin> set rt)"
proof -
  have m: "mset ind = mset (base_individual (length sts) 10)"
    by (rule final_individual [OF assms(1-4)])
  then have "size (mset ind) = size (mset (base_individual (length sts) 10))" by (simp only:)
  then have l: "length ind = length sts + 9" using length_base_individual [OF assms(5)] by simp
  from reachable [OF assms(1,2), of g wt wd] assms(3) have
    "s' = (setWeights wt wd s0)\<lparr>population := population s'\<rparr>" by auto
  from reachable_fields [OF assms(2) this] have "individualNum s' = 100" by simp
  then have "length ind \<le> individualNum s'" using l assms(6) by simp
  from decode_covers [OF m assms(5) this] show ?thesis .
qed


text \<open>
  C1, at an input where the decoding loses a stop. The first loop of \<open>getFitness\<close>
  runs \<open>i\<close> up to \<open>individualNum = 100\<close>, not up to the length of the
  individual. With 92 stops an individual has 101 entries. When the constructor draws
  the numbers \<open>late_rand\<close>, its first individual is the stops 1 to 91, the nine
  markers, then stop 92: a shuffle of the stops 1 to 92 and \<open>driverNum - 1\<close> markers,
  of length \<open>92 + driverNum - 1\<close>. The loop ends with \<open>warehouseIdx = 99\<close>, so the
  last route is skipped: the only decoded route is 1 to 91, also in the result of
  \<open>getFitness\<close>, and stop 92 is in no route, while splitting on the markers gives the
  two routes 1 to 91 and 92.
\<close>

theorem decode_omits_stop:
  "let s = fst (VRPSolver_new wh (replicate 92 c) late_rand);
       individual = hd (population s)
   in rand_ok late_rand \<and>
      individual = [1..<92] @ replicate 9 0 @ [92] \<and>
      mset individual = mset ([1..<93] @ replicate (driverNum s - 1) 0) \<and>
      length individual = 92 + driverNum s - 1 \<and>
      decode s individual = [[1..<92]] \<and>
      (case getFitness s individual of Inl e \<Rightarrow> False | Inr res \<Rightarrow> fit_routes res = [[1..<92]]) \<and>
      split_runs [] individual = [[1..<92], [92]] \<and>
      92 \<notin> \<Union> (set ` set (decode s individual))"
proof -
  let ?s = "fst (VRPSolver_new wh (replicate 92 c) late_rand)"
  obtain rest where "population ?s = fst (shuffle (base_individual 92 10) late_rand) # rest"
    using first_individual [of wh "replicate 92 c" late_rand] by auto
  then have h: "hd (population ?s) = late_stop" by (simp add: late_shuffle)
  have f: "driverNum ?s = 10" "coords ?s = wh # replicate 92 c"
    using new_fields [of wh "replicate 92 c" late_rand ?s "snd (VRPSolver_new wh (replicate 92 c) late_rand)"]
    by simp_all
  have "[1..<93] = [1..<92] @ [92::nat]" by code_simp
  then have m: "mset late_stop = mset ([1..<93] @ replicate 9 0)"
    by (simp add: late_stop_def)
  have l: "length late_stop = 101" by (simp add: late_stop_def)
  have dc: "decode ?s late_stop = [[1..<92]]"
    by (rule decode_late_stop [OF individualNum_new])
  have "valid_individual ?s late_stop"
    by (auto simp: valid_individual_def f late_stop_def)
  then obtain res where res: "getFitness ?s late_stop = Inr res"
    using getFitness_ok [of ?s late_stop] f(2) by auto
  then have "fit_routes res = [[1..<92]]"
    using evaluate_Inr [of ?s "decode ?s late_stop" res] dc by (auto simp: getFitness_def)
  then have gf: "(case getFitness ?s late_stop of Inl e \<Rightarrow> False | Inr res \<Rightarrow> fit_routes res = [[1..<92]])"
    using res by simp
  have sr: "split_runs [] late_stop = [[1..<92], [92]]"
    unfolding late_stop_def by code_simp
  show ?thesis
    unfolding Let_def h dc using late_rand_ok m l f(1) sr gf by (simp add: late_stop_def)
qed

end
